theory Spec2Isabelle
  imports Main "HOL-Library.Char_ord" "HOL-Library.List_Lexorder" "HOL-Library.While_Combinator"
begin

section \<open>The index registry of vg (src/index\_registry.cpp)\<close>

text \<open>
  A shallow embedding of \<^verbatim>\<open>IndexFile\<close>, \<^verbatim>\<open>IndexRecipe\<close> and \<^verbatim>\<open>IndexRegistry\<close>.
  A recipe's inputs are pointers to index files owned by the registry; index files are
  never removed and their identifiers are unique, so a pointer is modelled by the
  identifier of the file it points to. The executor of a recipe is an opaque function of
  the filenames of its inputs, the prefix and the suffix.

  Every way in which a member function can leave other than by returning is a value of
  \<open>error\<close>: \<^verbatim>\<open>exit(1)\<close> after a diagnostic, \<^verbatim>\<open>std::out_of_range\<close> from
  \<^verbatim>\<open>map::at\<close>, \<^verbatim>\<open>InsufficientInputException\<close> (with its target and the completed
  indexes), a failed \<^verbatim>\<open>assert\<close>, and an out-of-bounds \<^verbatim>\<open>operator[]\<close> on a vector.
\<close>

datatype error =
    FatalExit
  | OutOfRange
  | InsufficientInput string "string list"
  | AssertionFailure
  | OutOfBounds

record IndexRecipe =
  inputs :: "string list"
  exec :: "string list list \<Rightarrow> string \<Rightarrow> string \<Rightarrow> string list"

record IndexFile =
  "identifier" :: string
  suffix :: string
  filenames :: "string list"
  provided_directly :: bool
  recipes :: "IndexRecipe list"

text \<open>
  \<^verbatim>\<open>registry\<close> is the map from identifier to index file, kept as the list of its
  entries in iteration order (ascending identifier, as \<^verbatim>\<open>std::map\<close> iterates).
\<close>

record IndexRegistry =
  registry :: "(string \<times> IndexFile) list"
  registered_suffixes :: "string set"
  output_prefix :: string
  keep_intermediates :: bool

definition empty_registry :: IndexRegistry where
  "empty_registry = \<lparr>registry = [], registered_suffixes = {}, output_prefix = ''index'',
     keep_intermediates = False\<rparr>"

definition new_IndexFile :: "string \<Rightarrow> string \<Rightarrow> IndexFile" where
  "new_IndexFile ident suf = \<lparr>identifier = ident, suffix = suf, filenames = [],
     provided_directly = False, recipes = []\<rparr>"

definition is_finished :: "IndexFile \<Rightarrow> bool" where
  "is_finished f = (filenames f \<noteq> [])"

definition get_identifier :: "IndexFile \<Rightarrow> string" where
  "get_identifier f = identifier f"

definition get_filenames :: "IndexFile \<Rightarrow> string list" where
  "get_filenames f = filenames f"

definition get_recipes :: "IndexFile \<Rightarrow> IndexRecipe list" where
  "get_recipes f = recipes f"

definition was_provided_directly :: "IndexFile \<Rightarrow> bool" where
  "was_provided_directly f = provided_directly f"

definition IndexFile_provide :: "IndexFile \<Rightarrow> string list \<Rightarrow> IndexFile" where
  "IndexFile_provide f fns = f\<lparr>filenames := fns, provided_directly := True\<rparr>"

definition add_recipe ::
  "IndexFile \<Rightarrow> string list \<Rightarrow> (string list list \<Rightarrow> string \<Rightarrow> string \<Rightarrow> string list) \<Rightarrow> IndexFile" where
  "add_recipe f ins ex = f\<lparr>recipes := recipes f @ [\<lparr>inputs = ins, exec = ex\<rparr>]\<rparr>"

text \<open>\<^verbatim>\<open>registry.count(identifier)\<close> and \<^verbatim>\<open>registry.at(identifier)\<close>.\<close>

definition registry_count :: "IndexRegistry \<Rightarrow> string \<Rightarrow> bool" where
  "registry_count r ident = (map_of (registry r) ident \<noteq> None)"

definition get_index :: "IndexRegistry \<Rightarrow> string \<Rightarrow> error + IndexFile" where
  "get_index r ident =
     (case map_of (registry r) ident of None \<Rightarrow> Inl OutOfRange | Some f \<Rightarrow> Inr f)"

text \<open>Writing through the pointer that \<^verbatim>\<open>get_index\<close> returns.\<close>

definition put_index :: "IndexRegistry \<Rightarrow> string \<Rightarrow> IndexFile \<Rightarrow> IndexRegistry" where
  "put_index r ident f =
     r\<lparr>registry := map (\<lambda>(k, v). if k = ident then (k, f) else (k, v)) (registry r)\<rparr>"

definition register_index :: "IndexRegistry \<Rightarrow> string \<Rightarrow> string \<Rightarrow> error + IndexRegistry" where
  "register_index r ident suf =
     (if ident = [] then Inl FatalExit
      else if suf = [] then Inl FatalExit
      else if registry_count r ident then Inl FatalExit
      else if suf \<in> registered_suffixes r then Inl FatalExit
      else Inr (r\<lparr>registry := insort_key fst (ident, new_IndexFile ident suf) (registry r),
                    registered_suffixes := insert suf (registered_suffixes r)\<rparr>))"

definition provide :: "IndexRegistry \<Rightarrow> string \<Rightarrow> string list \<Rightarrow> error + IndexRegistry" where
  "provide r ident fns =
     (case get_index r ident of
        Inl e \<Rightarrow> Inl e
      | Inr f \<Rightarrow> Inr (put_index r ident (IndexFile_provide f fns)))"

definition provide_one :: "IndexRegistry \<Rightarrow> string \<Rightarrow> string \<Rightarrow> error + IndexRegistry" where
  "provide_one r ident fn = provide r ident [fn]"

text \<open>The loop of \<^verbatim>\<open>register_recipe\<close> that resolves the input identifiers in order.\<close>

fun resolve_inputs :: "IndexRegistry \<Rightarrow> string list \<Rightarrow> error + string list" where
  "resolve_inputs r [] = Inr []"
| "resolve_inputs r (i # is) =
     (case get_index r i of
        Inl e \<Rightarrow> Inl e
      | Inr f \<Rightarrow>
          (case resolve_inputs r is of
             Inl e \<Rightarrow> Inl e
           | Inr fs \<Rightarrow> Inr (get_identifier f # fs)))"

definition register_recipe ::
  "IndexRegistry \<Rightarrow> string \<Rightarrow> string list \<Rightarrow> (string list list \<Rightarrow> string \<Rightarrow> string \<Rightarrow> string list)
     \<Rightarrow> error + IndexRegistry" where
  "register_recipe r ident input_identifiers ex =
     (case resolve_inputs r input_identifiers of
        Inl e \<Rightarrow> Inl e
      | Inr ins \<Rightarrow>
          (case get_index r ident of
             Inl e \<Rightarrow> Inl e
           | Inr f \<Rightarrow> Inr (put_index r ident (add_recipe f ins ex))))"

definition set_prefix :: "IndexRegistry \<Rightarrow> string \<Rightarrow> IndexRegistry" where
  "set_prefix r p = r\<lparr>output_prefix := p\<rparr>"

definition set_intermediate_file_keeping :: "IndexRegistry \<Rightarrow> bool \<Rightarrow> IndexRegistry" where
  "set_intermediate_file_keeping r k = r\<lparr>keep_intermediates := k\<rparr>"

definition completed_indexes :: "IndexRegistry \<Rightarrow> string list" where
  "completed_indexes r = map fst (filter (\<lambda>(k, f). is_finished f) (registry r))"

section \<open>The dependency order\<close>

text \<open>
  \<^verbatim>\<open>graph_idx\<close> and \<^verbatim>\<open>dep_order_of_identifier\<close> are filled by a loop that assigns to
  every identifier of a vector its position; \<^verbatim>\<open>operator[]\<close> of an
  \<^verbatim>\<open>unordered_map\<close> reads 0 for a key that was never assigned.
\<close>

definition index_map :: "string list \<Rightarrow> (string \<rightharpoonup> nat)" where
  "index_map xs = fold (\<lambda>(x, i) m. m(x \<mapsto> i)) (zip xs [0..<length xs]) Map.empty"

definition at_default :: "(string \<rightharpoonup> nat) \<Rightarrow> string \<Rightarrow> nat" where
  "at_default m x = (case m x of None \<Rightarrow> 0 | Some i \<Rightarrow> i)"

definition graph_label :: "IndexRegistry \<Rightarrow> string list" where
  "graph_label r = map fst (registry r)"

definition graph_idx :: "IndexRegistry \<Rightarrow> string \<Rightarrow> nat" where
  "graph_idx r = at_default (index_map (graph_label r))"

text \<open>
  The edges pushed for the index at position \<open>i\<close>: one for every input of every one of
  its recipes, from the position of the input to \<open>i\<close>.
\<close>

definition edges_into :: "IndexRegistry \<Rightarrow> nat \<Rightarrow> error + (nat \<times> nat) list" where
  "edges_into r i =
     (case get_index r (graph_label r ! i) of
        Inl e \<Rightarrow> Inl e
      | Inr index \<Rightarrow>
          Inr (map (\<lambda>x. (graph_idx r x, i)) (concat (map inputs (get_recipes index)))))"

fun all_edges :: "IndexRegistry \<Rightarrow> nat list \<Rightarrow> error + (nat \<times> nat) list" where
  "all_edges r [] = Inr []"
| "all_edges r (i # is) =
     (case edges_into r i of
        Inl e \<Rightarrow> Inl e
      | Inr es \<Rightarrow> (case all_edges r is of Inl e \<Rightarrow> Inl e | Inr es' \<Rightarrow> Inr (es @ es')))"

text \<open>The adjacency lists after \<^verbatim>\<open>sort\<close> and \<^verbatim>\<open>unique\<close>.\<close>

definition adjacency :: "nat \<Rightarrow> (nat \<times> nat) list \<Rightarrow> nat list list" where
  "adjacency n es =
     map (\<lambda>k. remdups_adj (sort (map snd (filter (\<lambda>e. fst e = k) es)))) [0..<n]"

definition dependency_graph :: "IndexRegistry \<Rightarrow> error + nat list list" where
  "dependency_graph r =
     (case all_edges r [0..<length (graph_label r)] of
        Inl e \<Rightarrow> Inl e
      | Inr es \<Rightarrow> Inr (adjacency (length (graph_label r)) es))"

definition initial_in_degree :: "nat list list \<Rightarrow> nat list" where
  "initial_in_degree g =
     fold (\<lambda>i deg. deg[i := deg ! i + 1]) (concat g) (replicate (length g) 0)"

text \<open>\<^verbatim>\<open>--x\<close> on a \<^verbatim>\<open>size_t\<close>: below zero it wraps around.\<close>

definition size_t_dec :: "nat \<Rightarrow> nat" where
  "size_t_dec x = (if x = 0 then 2 ^ 64 - 1 else x - 1)"

text \<open>
  The state of Kahn's loop: the in-degrees, the stack (its back is the head of the
  list) and the order found so far.
\<close>

type_synonym kahn_state = "nat list \<times> nat list \<times> nat list"

definition kahn_visit :: "nat \<Rightarrow> nat list \<times> nat list \<Rightarrow> nat list \<times> nat list" where
  "kahn_visit j = (\<lambda>(deg, stack).
     (let deg' = deg[j := size_t_dec (deg ! j)]
      in if deg' ! j = 0 then (deg', j # stack) else (deg', stack)))"

definition kahn_step :: "nat list list \<Rightarrow> kahn_state \<Rightarrow> kahn_state" where
  "kahn_step g = (\<lambda>(deg, stack, order).
     (let i = hd stack;
          (deg', stack') = fold kahn_visit (g ! i) (deg, tl stack)
      in (deg', stack', order @ [i])))"

definition kahn_loop :: "nat list list \<Rightarrow> kahn_state \<Rightarrow> kahn_state option" where
  "kahn_loop g = while_option (\<lambda>(deg, stack, order). stack \<noteq> []) (kahn_step g)"

definition initial_stack :: "nat list \<Rightarrow> nat list" where
  "initial_stack deg = rev (filter (\<lambda>i. deg ! i = 0) [0..<length deg])"

text \<open>
  \<^verbatim>\<open>dependency_order\<close>. The result is \<open>None\<close> when the loop does not end,
  \<open>Some (Inl FatalExit)\<close> for the exit after the diagnostic that the graph is not a DAG.
\<close>

definition dependency_order :: "IndexRegistry \<Rightarrow> (error + string list) option" where
  "dependency_order r =
     (case dependency_graph r of
        Inl e \<Rightarrow> Some (Inl e)
      | Inr g \<Rightarrow>
          (let deg = initial_in_degree g
           in case kahn_loop g (deg, initial_stack deg, []) of
                None \<Rightarrow> None
              | Some (deg', stack', order) \<Rightarrow>
                  if length order \<noteq> length g then Some (Inl FatalExit)
                  else Some (Inr (map (\<lambda>i. graph_label r ! i) order))))"

section \<open>The planner\<close>

text \<open>
  An entry of \<^verbatim>\<open>plan_path\<close> is (position in the dependency order, requester, ordinal
  of the recipe selected); the back of the vector is the head of the list. The
  \<^verbatim>\<open>queue\<close> maps a position to (requester, number of requesters) and iterates from
  the greatest key (\<^verbatim>\<open>greater<size_t>\<close>): it is the list of its entries in that order.
\<close>

type_synonym plan_path = "(nat \<times> nat \<times> nat) list"

type_synonym queue = "(nat \<times> nat \<times> nat) list"

type_synonym plan_state = "plan_path \<times> queue"

fun queue_insert :: "nat \<Rightarrow> nat \<times> nat \<Rightarrow> queue \<Rightarrow> queue" where
  "queue_insert k v [] = [(k, v)]"
| "queue_insert k v ((k', v') # q) =
     (if k' < k then (k, v) # (k', v') # q else (k', v') # queue_insert k v q)"

definition queue_assign :: "nat \<Rightarrow> nat \<times> nat \<Rightarrow> queue \<Rightarrow> queue" where
  "queue_assign k v q = map (\<lambda>(k', v'). if k' = k then (k', v) else (k', v')) q"

definition queue_erase :: "nat \<Rightarrow> queue \<Rightarrow> queue" where
  "queue_erase k q = filter (\<lambda>(k', v'). k' \<noteq> k) q"

text \<open>\<^verbatim>\<open>dep_order_of_identifier[x]\<close>, for the dependency order \<open>ord\<close>.\<close>

definition dep_order_of_identifier :: "string list \<Rightarrow> string \<Rightarrow> nat" where
  "dep_order_of_identifier ord = at_default (index_map ord)"

text \<open>\<^verbatim>\<open>get_index(identifier_order[k])\<close>.\<close>

definition index_at :: "IndexRegistry \<Rightarrow> string list \<Rightarrow> nat \<Rightarrow> error + IndexFile" where
  "index_at r ord k = (if k < length ord then get_index r (ord ! k) else Inl OutOfBounds)"

text \<open>
  Queueing the inputs of a recipe for the index at position \<open>k\<close>
  (the two loops over \<^verbatim>\<open>recipe.inputs\<close> that fill the queue).
\<close>

fun request_inputs :: "string list \<Rightarrow> nat \<Rightarrow> string list \<Rightarrow> queue \<Rightarrow> queue" where
  "request_inputs ord k [] q = q"
| "request_inputs ord k (input # ins) q =
     (let dep_order = dep_order_of_identifier ord input
      in request_inputs ord k ins
           (case map_of q dep_order of
              None \<Rightarrow> queue_insert dep_order (k, 1) q
            | Some (rq, c) \<Rightarrow> queue_assign dep_order (rq, c + 1) q))"

text \<open>
  Withdrawing the requests of a recipe
  (the two loops over \<^verbatim>\<open>recipe.inputs\<close> that decrement the number of requesters).
\<close>

fun release_inputs :: "string list \<Rightarrow> string list \<Rightarrow> queue \<Rightarrow> queue" where
  "release_inputs ord [] q = q"
| "release_inputs ord (input # ins) q =
     (let input_dep_order = dep_order_of_identifier ord input
      in release_inputs ord ins
           (case map_of q input_dep_order of
              None \<Rightarrow> q
            | Some (rq, c) \<Rightarrow>
                if size_t_dec c = 0 then queue_erase input_dep_order q
                else queue_assign input_dep_order (rq, size_t_dec c) q))"

text \<open>
  What is done for the entry at the back of the path when it is abandoned or advanced:
  if it was using a recipe, the requests of that recipe are withdrawn.
\<close>

definition release_entry ::
  "IndexRegistry \<Rightarrow> string list \<Rightarrow> nat \<times> nat \<times> nat \<Rightarrow> queue \<Rightarrow> error + queue" where
  "release_entry r ord = (\<lambda>(k, rq, i) q.
     (case index_at r ord k of
        Inl e \<Rightarrow> Inl e
      | Inr index \<Rightarrow>
          if \<not> is_finished index \<and> i < length (get_recipes index)
          then Inr (release_inputs ord (inputs (get_recipes index ! i)) q)
          else Inr q))"

text \<open>The inner loop: entries are removed from the path until its back is the requester.\<close>

fun prune_path ::
  "IndexRegistry \<Rightarrow> string list \<Rightarrow> nat \<Rightarrow> plan_path \<Rightarrow> queue \<Rightarrow> error + plan_state" where
  "prune_path r ord requester [] q = Inr ([], q)"
| "prune_path r ord requester (e # path) q =
     (if fst e = requester then Inr (e # path, q)
      else (case release_entry r ord e q of
              Inl err \<Rightarrow> Inl err
            | Inr q' \<Rightarrow> prune_path r ord requester path q'))"

lemma prune_path_length:
  "prune_path r ord requester path q = Inr (path', q') \<Longrightarrow> length path' \<le> length path"
proof (induction path arbitrary: q)
  case Nil
  then show ?case by simp
next
  case (Cons e path)
  then show ?case
    by (fastforce split: if_splits sum.splits)
qed

lemma prune_path_same_length:
  "prune_path r ord requester path q = Inr (path', q') \<Longrightarrow> length path' = length path
     \<Longrightarrow> path' = path"
proof -
  assume a: "prune_path r ord requester path q = Inr (path', q')"
    and l: "length path' = length path"
  show ?thesis
  proof (cases path)
  case Nil
  with a show ?thesis by simp
next
  case (Cons e rest)
  show ?thesis
  proof (cases "fst e = requester")
    case True
    with a Cons show ?thesis by simp
  next
    case False
    with a Cons obtain q'' where "prune_path r ord requester rest q'' = Inr (path', q')"
      by (auto split: sum.splits)
    from prune_path_length [OF this] l Cons show ?thesis by simp
  qed
qed
qed

text \<open>
  The backtracking loop: while the back of the path has no recipe left, prune the path
  to its requester and advance the requester to its next recipe.
\<close>

definition exhausted :: "IndexRegistry \<Rightarrow> string list \<Rightarrow> plan_path \<Rightarrow> error + bool" where
  "exhausted r ord path =
     (case path of
        [] \<Rightarrow> Inr False
      | (k, rq, i) # _ \<Rightarrow>
          (case index_at r ord k of
             Inl e \<Rightarrow> Inl e
           | Inr index \<Rightarrow> Inr (i = length (get_recipes index))))"

function backtrack ::
  "IndexRegistry \<Rightarrow> string list \<Rightarrow> plan_path \<Rightarrow> queue \<Rightarrow> error + plan_state" where
  "backtrack r ord path q =
     (case exhausted r ord path of
        Inl e \<Rightarrow> Inl e
      | Inr False \<Rightarrow> Inr (path, q)
      | Inr True \<Rightarrow>
          (case prune_path r ord (fst (snd (hd path))) path q of
             Inl e \<Rightarrow> Inl e
           | Inr ([], q') \<Rightarrow> backtrack r ord [] q'
           | Inr ((k, rq, i) # path', q') \<Rightarrow>
               (case release_entry r ord (k, rq, i) q' of
                  Inl e \<Rightarrow> Inl e
                | Inr q'' \<Rightarrow> backtrack r ord ((k, rq, i + 1) # path') q'')))"
  by pat_completeness auto
termination
proof (relation "measure (\<lambda>(r, ord, path, q).
         2 * length path + (if exhausted r ord path = Inr True then 1 else 0))", goal_cases)
  case 1
  then show ?case by simp
next
  case (2 r ord path q x2 x2a x1 x2b)
  then show ?case
    by (auto simp: exhausted_def dest!: prune_path_length split: list.splits)
next
  case (3 r ord path q x2 x2a x1 x2b a list k y rq i x2e)
  then have le: "length ((k, rq, i) # list) \<le> length path"
    by (auto dest!: prune_path_length)
  show ?case
  proof (cases "length ((k, rq, i) # list) = length path")
    case True
    with 3 have eq: "path = (k, rq, i) # list"
      by (auto dest: prune_path_same_length)
    with 3 have "exhausted r ord ((k, rq, i + 1) # list) = Inr False"
      by (auto simp: exhausted_def split: sum.splits)
    with 3 eq show ?thesis by simp
  next
    case False
    with le show ?thesis by (auto split: if_splits)
  qed
qed

declare backtrack.simps [simp del]

text \<open>One iteration of \<^verbatim>\<open>while (!queue.empty())\<close>.\<close>

definition plan_step :: "IndexRegistry \<Rightarrow> string list \<Rightarrow> plan_state \<Rightarrow> error + plan_state" where
  "plan_step r ord = (\<lambda>(plan_path, queue).
     (case queue of
        [] \<Rightarrow> Inr (plan_path, queue)
      | (k, rq, c) # queue' \<Rightarrow>
          (let plan_path' = (k, rq, 0) # plan_path
           in case index_at r ord k of
                Inl e \<Rightarrow> Inl e
              | Inr index \<Rightarrow>
                  if is_finished index then Inr (plan_path', queue')
                  else if get_recipes index \<noteq> []
                  then Inr (plan_path', request_inputs ord k (inputs (hd (get_recipes index))) queue')
                  else (case backtrack r ord plan_path' queue' of
                          Inl e \<Rightarrow> Inl e
                        | Inr ([], q) \<Rightarrow> Inr ([], q)
                        | Inr ((k', rq', i') # path', q) \<Rightarrow>
                            (case index_at r ord k' of
                               Inl e \<Rightarrow> Inl e
                             | Inr index' \<Rightarrow>
                                 if i' < length (get_recipes index')
                                 then Inr ((k', rq', i') # path',
                                        request_inputs ord k' (inputs (get_recipes index' ! i')) q)
                                 else Inl OutOfBounds)))))"

definition plan_running :: "error + plan_state \<Rightarrow> bool" where
  "plan_running s = (case s of Inl e \<Rightarrow> False | Inr (plan_path, queue) \<Rightarrow> queue \<noteq> [])"

definition plan_next :: "IndexRegistry \<Rightarrow> string list \<Rightarrow> error + plan_state \<Rightarrow> error + plan_state" where
  "plan_next r ord s = (case s of Inl e \<Rightarrow> Inl e | Inr st \<Rightarrow> plan_step r ord st)"

definition plan_loop ::
  "IndexRegistry \<Rightarrow> string list \<Rightarrow> error + plan_state \<Rightarrow> (error + plan_state) option" where
  "plan_loop r ord = while_option plan_running (plan_next r ord)"

text \<open>
  The body of the loop over \<^verbatim>\<open>end_products\<close>, up to the plan path of one product:
  \<open>None\<close> when the loop does not end, the exception when the path comes out empty.
\<close>

definition plan_product ::
  "IndexRegistry \<Rightarrow> string list \<Rightarrow> string \<Rightarrow> (error + plan_path) option" where
  "plan_product r ord product =
     (case plan_loop r ord
             (Inr ([], [(dep_order_of_identifier ord product, (length ord, 1))])) of
        None \<Rightarrow> None
      | Some (Inl e) \<Rightarrow> Some (Inl e)
      | Some (Inr (plan_path, queue)) \<Rightarrow>
          if plan_path = [] then Some (Inl (InsufficientInput product (completed_indexes r)))
          else Some (Inr plan_path))"

text \<open>
  \<^verbatim>\<open>plan_elements\<close> is a set of pairs; it is the list of its elements, without
  repetition. Recording the path of a product walks the vector from its front.
\<close>

definition emplace :: "string \<times> nat \<Rightarrow> (string \<times> nat) list \<Rightarrow> (string \<times> nat) list" where
  "emplace x xs = (if x \<in> set xs then xs else xs @ [x])"

definition record_path ::
  "string list \<Rightarrow> plan_path \<Rightarrow> (string \<times> nat) list \<Rightarrow> (string \<times> nat) list" where
  "record_path ord plan_path plan_elements =
     fold (\<lambda>(k, rq, i). emplace (ord ! k, i)) (rev plan_path) plan_elements"

fun plan_products ::
  "IndexRegistry \<Rightarrow> string list \<Rightarrow> string list \<Rightarrow> (string \<times> nat) list
     \<Rightarrow> (error + (string \<times> nat) list) option" where
  "plan_products r ord [] plan_elements = Some (Inr plan_elements)"
| "plan_products r ord (product # products) plan_elements =
     (case plan_product r ord product of
        None \<Rightarrow> None
      | Some (Inl e) \<Rightarrow> Some (Inl e)
      | Some (Inr plan_path) \<Rightarrow>
          plan_products r ord products (record_path ord plan_path plan_elements))"

text \<open>
  The end of \<^verbatim>\<open>make_plan\<close>: the elements are sorted by their position in the dependency
  order, and those whose index is finished are removed. (\<^verbatim>\<open>std::sort\<close> leaves the order
  of two elements with the same identifier open, and so does the iteration of the
  \<^verbatim>\<open>unordered_set\<close>; here the one recorded first comes first. The statements about plans
  below are about the elements of a plan and about elements with different identifiers,
  or compare two runs that record the same elements in the same sequence.)
\<close>

fun remove_finished :: "IndexRegistry \<Rightarrow> (string \<times> nat) list \<Rightarrow> error + (string \<times> nat) list" where
  "remove_finished r [] = Inr []"
| "remove_finished r (recipe_choice # plan) =
     (case get_index r (fst recipe_choice) of
        Inl e \<Rightarrow> Inl e
      | Inr index \<Rightarrow>
          (case remove_finished r plan of
             Inl e \<Rightarrow> Inl e
           | Inr plan' \<Rightarrow> Inr (if is_finished index then plan' else recipe_choice # plan')))"

definition selected_elements ::
  "IndexRegistry \<Rightarrow> string list \<Rightarrow> (error + (string \<times> nat) list) option" where
  "selected_elements r end_products =
     (case dependency_order r of
        None \<Rightarrow> None
      | Some (Inl e) \<Rightarrow> Some (Inl e)
      | Some (Inr identifier_order) \<Rightarrow> plan_products r identifier_order end_products [])"

definition make_plan ::
  "IndexRegistry \<Rightarrow> string list \<Rightarrow> (error + (string \<times> nat) list) option" where
  "make_plan r end_products =
     (case dependency_order r of
        None \<Rightarrow> None
      | Some (Inl e) \<Rightarrow> Some (Inl e)
      | Some (Inr identifier_order) \<Rightarrow>
          (case plan_products r identifier_order end_products [] of
             None \<Rightarrow> None
           | Some (Inl e) \<Rightarrow> Some (Inl e)
           | Some (Inr plan_elements) \<Rightarrow>
               Some (remove_finished r
                 (sort_key (\<lambda>a. dep_order_of_identifier identifier_order (fst a)) plan_elements))))"

section \<open>Executing a plan and cleaning up\<close>

text \<open>The pointers of \<^verbatim>\<open>recipe.inputs\<close>, followed into the registry.\<close>

fun input_files :: "IndexRegistry \<Rightarrow> string list \<Rightarrow> error + IndexFile list" where
  "input_files r [] = Inr []"
| "input_files r (i # is) =
     (case get_index r i of
        Inl e \<Rightarrow> Inl e
      | Inr f \<Rightarrow> (case input_files r is of Inl e \<Rightarrow> Inl e | Inr fs \<Rightarrow> Inr (f # fs)))"

definition IndexRecipe_execute :: "IndexRecipe \<Rightarrow> IndexFile list \<Rightarrow> string \<Rightarrow> string \<Rightarrow> string list" where
  "IndexRecipe_execute recipe ins prefix suf = exec recipe (map get_filenames ins) prefix suf"

definition execute_recipe ::
  "IndexRegistry \<Rightarrow> IndexFile \<Rightarrow> nat \<Rightarrow> string \<Rightarrow> error + IndexFile" where
  "execute_recipe r index recipe_priority prefix =
     (if \<not> recipe_priority < length (recipes index) then Inl AssertionFailure
      else (let recipe = recipes index ! recipe_priority
            in case input_files r (inputs recipe) of
                 Inl e \<Rightarrow> Inl e
               | Inr ins \<Rightarrow>
                   if \<not> list_all is_finished ins then Inl AssertionFailure
                   else Inr (index\<lparr>filenames := IndexRecipe_execute recipe ins prefix (suffix index)\<rparr>)))"

definition is_intermediate :: "string list \<Rightarrow> IndexFile \<Rightarrow> bool" where
  "is_intermediate identifiers index =
     (if was_provided_directly index then False
      else get_identifier index \<notin> set identifiers)"

text \<open>
  The loop over the steps of the plan. \<open>temp_dir\<close> stands for \<^verbatim>\<open>temp_file::get_dir()\<close>
  and \<open>sha1sum\<close> for the function of that name; both are declared outside this file.
\<close>

fun execute_plan ::
  "string \<Rightarrow> (string \<Rightarrow> string) \<Rightarrow> string list \<Rightarrow> IndexRegistry \<Rightarrow> (string \<times> nat) list
     \<Rightarrow> error + IndexRegistry" where
  "execute_plan temp_dir sha1sum identifiers r [] = Inr r"
| "execute_plan temp_dir sha1sum identifiers r (step # plan) =
     (case get_index r (fst step) of
        Inl e \<Rightarrow> Inl e
      | Inr index \<Rightarrow>
          (let index_prefix =
                 (if keep_intermediates r \<or> \<not> is_intermediate identifiers index
                  then output_prefix r
                  else temp_dir @ ''/'' @ sha1sum (get_identifier index))
           in case execute_recipe r index (snd step) index_prefix of
                Inl e \<Rightarrow> Inl e
              | Inr index' \<Rightarrow>
                  execute_plan temp_dir sha1sum identifiers (put_index r (fst step) index') plan))"

definition to_keep :: "string list \<Rightarrow> IndexRegistry \<Rightarrow> string set" where
  "to_keep identifiers r =
     set (concat (map (\<lambda>(k, index). if \<not> is_intermediate identifiers index
                                    then get_filenames index else [])
                      (registry r)))"

text \<open>The filenames handed to \<^verbatim>\<open>std::remove\<close>, in order.\<close>

definition removed_files :: "string list \<Rightarrow> IndexRegistry \<Rightarrow> string list" where
  "removed_files identifiers r =
     filter (\<lambda>filename. filename \<notin> to_keep identifiers r)
       (concat (map (\<lambda>(k, index). get_filenames index) (registry r)))"

text \<open>
  \<^verbatim>\<open>make_indexes\<close> returns the registry after the plan has run and the files it removed.
\<close>

definition make_indexes ::
  "string \<Rightarrow> (string \<Rightarrow> string) \<Rightarrow> IndexRegistry \<Rightarrow> string list
     \<Rightarrow> (error + IndexRegistry \<times> string list) option" where
  "make_indexes temp_dir sha1sum r identifiers =
     (case make_plan r identifiers of
        None \<Rightarrow> None
      | Some (Inl e) \<Rightarrow> Some (Inl e)
      | Some (Inr plan) \<Rightarrow>
          (case execute_plan temp_dir sha1sum identifiers r plan of
             Inl e \<Rightarrow> Some (Inl e)
           | Inr r' \<Rightarrow>
               Some (Inr (r', if \<not> keep_intermediates r' then removed_files identifiers r' else []))))"

section \<open>Reachable registries\<close>

text \<open>
  The registries that the public operations build from the empty one. \<open>ok\<close> restricts
  the filename lists passed to \<^verbatim>\<open>provide\<close>. An operation that leaves by an exception
  before it changes anything leaves the registry as it was; one that ends the process leaves
  no registry.
\<close>

inductive reachable :: "(string list \<Rightarrow> bool) \<Rightarrow> IndexRegistry \<Rightarrow> bool"
  for ok :: "string list \<Rightarrow> bool" where
  reach_empty: "reachable ok empty_registry"
| reach_register_index:
    "reachable ok r \<Longrightarrow> register_index r ident suf = Inr r' \<Longrightarrow> reachable ok r'"
| reach_register_recipe:
    "reachable ok r \<Longrightarrow> register_recipe r ident ins ex = Inr r' \<Longrightarrow> reachable ok r'"
| reach_provide:
    "reachable ok r \<Longrightarrow> ok fns \<Longrightarrow> provide r ident fns = Inr r' \<Longrightarrow> reachable ok r'"
| reach_set_prefix:
    "reachable ok r \<Longrightarrow> reachable ok (set_prefix r p)"
| reach_set_intermediate_file_keeping:
    "reachable ok r \<Longrightarrow> reachable ok (set_intermediate_file_keeping r k)"
| reach_make_indexes:
    "reachable ok r \<Longrightarrow> make_indexes temp_dir sha1sum r identifiers = Some (Inr (r', removed))
       \<Longrightarrow> reachable ok r'"

text \<open>
  What the representation in C++ guarantees of a registry: the keys of the map are
  distinct, every index file is stored under its own identifier, and the inputs of every
  recipe point to index files of the registry.
\<close>

definition wf_registry :: "IndexRegistry \<Rightarrow> bool" where
  "wf_registry r =
     (distinct (map fst (registry r)) \<and>
      (\<forall>(k, f) \<in> set (registry r).
         identifier f = k \<and>
         (\<forall>recipe \<in> set (recipes f). \<forall>x \<in> set (inputs recipe). x \<in> fst ` set (registry r))))"

section \<open>Lookups of unregistered identifiers\<close>

lemma resolve_inputs_unregistered:
  "i \<in> set is \<Longrightarrow> \<not> registry_count r i \<Longrightarrow> resolve_inputs r is = Inl OutOfRange"
proof (induction "is")
  case Nil
  then show ?case by simp
next
  case (Cons a as)
  show ?case
  proof (cases "get_index r a")
    case (Inl e)
    then have "e = OutOfRange"
      by (auto simp: get_index_def split: option.splits)
    with Inl show ?thesis by simp
  next
    case (Inr f)
    then have "registry_count r a"
      by (auto simp: get_index_def registry_count_def split: option.splits)
    with Cons.prems have "i \<in> set as" by auto
    with Cons have "resolve_inputs r as = Inl OutOfRange" by simp
    with Inr show ?thesis by simp
  qed
qed

lemma resolve_inputs_error:
  "resolve_inputs r is = Inl e \<Longrightarrow> e = OutOfRange"
  by (induction "is" arbitrary: e)
     (auto simp: get_index_def split: option.splits sum.splits)

text \<open>
  C10: for an identifier that is not in the registry, \<^verbatim>\<open>provide\<close> (both overloads) and
  \<^verbatim>\<open>register_recipe\<close> with the identifier as its output or among its inputs leave by
  \<^verbatim>\<open>std::out_of_range\<close> (the exception of \<^verbatim>\<open>registry.at\<close> in \<^verbatim>\<open>get_index\<close>),
  not by the fatal exit of a configuration diagnostic.
\<close>

theorem unregistered_identifier_throws_out_of_range:
  "\<not> registry_count r ident \<Longrightarrow>
     provide r ident fns = Inl OutOfRange
   \<and> provide_one r ident fn = Inl OutOfRange
   \<and> register_recipe r ident ins ex = Inl OutOfRange
   \<and> (ident \<in> set ins \<longrightarrow> register_recipe r out ins ex = Inl OutOfRange)"
proof -
  assume un: "\<not> registry_count r ident"
  then have g: "get_index r ident = Inl OutOfRange"
    by (simp add: registry_count_def get_index_def)
  have p: "provide r ident fns = Inl OutOfRange" for fns
    using g by (simp add: provide_def)
  have r1: "register_recipe r ident ins ex = Inl OutOfRange"
  proof (cases "resolve_inputs r ins")
    case (Inl e)
    then show ?thesis
      using resolve_inputs_error [OF Inl] by (simp add: register_recipe_def)
  next
    case (Inr fs)
    then show ?thesis using g by (simp add: register_recipe_def)
  qed
  have r2: "ident \<in> set ins \<longrightarrow> register_recipe r out ins ex = Inl OutOfRange"
    using resolve_inputs_unregistered [OF _ un] by (auto simp: register_recipe_def)
  show ?thesis using p r1 r2 by (simp add: provide_one_def)
qed

theorem unregistered_identifier_throws_out_of_range_witness:
  "\<not> registry_count empty_registry ''VG''
   \<and> provide empty_registry ''VG'' [''graph.vg''] = Inl OutOfRange
   \<and> provide_one empty_registry ''VG'' ''graph.vg'' = Inl OutOfRange
   \<and> register_recipe empty_registry ''VG'' [''Reference GFA''] (\<lambda>ins prefix suf. [prefix @ suf])
        = Inl OutOfRange
   \<and> register_recipe empty_registry ''XG'' [''VG''] (\<lambda>ins prefix suf. [prefix @ suf])
        = Inl OutOfRange"
proof -
  have h: "\<not> registry_count empty_registry ''VG''"
    by (simp add: registry_count_def empty_registry_def)
  show ?thesis
    using h unregistered_identifier_throws_out_of_range [OF h, of "[''graph.vg'']" "''graph.vg''"
       "[''VG'']" "\<lambda>ins prefix suf. [prefix @ suf]" "''XG''"]
      unregistered_identifier_throws_out_of_range [OF h, of "[''graph.vg'']" "''graph.vg''"
       "[''Reference GFA'']" "\<lambda>ins prefix suf. [prefix @ suf]" "''XG''"]
    by simp
qed

section \<open>Cleanup\<close>

definition intermediate_files :: "string list \<Rightarrow> IndexRegistry \<Rightarrow> string set" where
  "intermediate_files identifiers r =
     set (concat (map (\<lambda>(k, index). if is_intermediate identifiers index
                                    then get_filenames index else [])
                      (registry r)))"

lemma in_to_keep:
  "x \<in> to_keep identifiers r \<longleftrightarrow>
     (\<exists>k index. (k, index) \<in> set (registry r) \<and> \<not> is_intermediate identifiers index
        \<and> x \<in> set (get_filenames index))"
  unfolding to_keep_def by (induction "registry r" arbitrary: r) (auto split: if_splits)

lemma in_intermediate_files:
  "x \<in> intermediate_files identifiers r \<longleftrightarrow>
     (\<exists>k index. (k, index) \<in> set (registry r) \<and> is_intermediate identifiers index
        \<and> x \<in> set (get_filenames index))"
  unfolding intermediate_files_def by (induction "registry r" arbitrary: r) (auto split: if_splits)

lemma in_all_filenames:
  "x \<in> set (concat (map (\<lambda>(k, index). get_filenames index) xs)) \<longleftrightarrow>
     (\<exists>k index. (k, index) \<in> set xs \<and> x \<in> set (get_filenames index))"
  by (induction xs) auto

lemma set_removed_files:
  "set (removed_files identifiers r) = intermediate_files identifiers r - to_keep identifiers r"
proof (rule set_eqI)
  fix x
  have "x \<in> set (removed_files identifiers r) \<longleftrightarrow>
          x \<notin> to_keep identifiers r
          \<and> (\<exists>k index. (k, index) \<in> set (registry r) \<and> x \<in> set (get_filenames index))"
    unfolding removed_files_def set_filter using in_all_filenames [of x "registry r"] by blast
  also have "\<dots> \<longleftrightarrow> x \<in> intermediate_files identifiers r - to_keep identifiers r"
    unfolding Diff_iff in_intermediate_files in_to_keep by blast
  finally show "x \<in> set (removed_files identifiers r) \<longleftrightarrow>
          x \<in> intermediate_files identifiers r - to_keep identifiers r" .
qed

lemma execute_plan_keep_intermediates:
  "execute_plan temp_dir sha1sum identifiers r plan = Inr r'
     \<Longrightarrow> keep_intermediates r' = keep_intermediates r"
proof (induction plan arbitrary: r)
  case Nil
  then show ?case by simp
next
  case (Cons step plan)
  from Cons.prems obtain index' where
    "execute_plan temp_dir sha1sum identifiers (put_index r (fst step) index') plan = Inr r'"
    by (auto simp: Let_def split: sum.splits)
  from Cons.IH [OF this] show ?case by (simp add: put_index_def)
qed

text \<open>
  C6: when \<^verbatim>\<open>make_indexes\<close> completes with \<^verbatim>\<open>keep_intermediates\<close> false, the set
  of files it removes is exactly the set of filenames listed on intermediate indexes minus
  the keep set (the filenames of all indexes that are not intermediate); no file listed on
  an index that is not intermediate is removed, also when an aliasing recipe shares that
  filename with an intermediate index.
\<close>

theorem cleanup_removes_exactly_unkept_intermediates:
  assumes "make_indexes temp_dir sha1sum r identifiers = Some (Inr (r', removed))"
    and "\<not> keep_intermediates r"
  shows "set removed = intermediate_files identifiers r' - to_keep identifiers r'
       \<and> (\<forall>(k, index) \<in> set (registry r').
             \<not> is_intermediate identifiers index
               \<longrightarrow> set (get_filenames index) \<inter> set removed = {})"
proof -
  from assms(1) obtain plan where
    ex: "execute_plan temp_dir sha1sum identifiers r plan = Inr r'"
    and rm: "removed = (if \<not> keep_intermediates r' then removed_files identifiers r' else [])"
    by (auto simp: make_indexes_def split: option.splits sum.splits)
  from execute_plan_keep_intermediates [OF ex] assms(2) rm
  have "removed = removed_files identifiers r'" by simp
  then have eq: "set removed = intermediate_files identifiers r' - to_keep identifiers r'"
    by (simp add: set_removed_files)
  have "set (get_filenames index) \<subseteq> to_keep identifiers r'"
    if "(k, index) \<in> set (registry r')" "\<not> is_intermediate identifiers index" for k index
    using that in_to_keep by blast
  with eq show ?thesis by blast
qed

section \<open>Directly provided and finished\<close>

definition provided_finished :: "IndexRegistry \<Rightarrow> bool" where
  "provided_finished r =
     (\<forall>(k, index) \<in> set (registry r). was_provided_directly index \<longrightarrow> is_finished index)"

lemma get_index_in_registry:
  "get_index r ident = Inr f \<Longrightarrow> (ident, f) \<in> set (registry r)"
  by (auto simp: get_index_def split: option.splits dest: map_of_SomeD)

lemma put_index_entries:
  "(k, f) \<in> set (registry (put_index r ident f'))
     \<Longrightarrow> (k, f) \<in> set (registry r) \<or> (k = ident \<and> f = f')"
  by (auto simp: put_index_def split: if_splits)

lemma provided_finished_put_index:
  "provided_finished r \<Longrightarrow> (was_provided_directly f' \<longrightarrow> is_finished f')
     \<Longrightarrow> provided_finished (put_index r ident f')"
  unfolding provided_finished_def using put_index_entries by blast

lemma get_index_put_index:
  "get_index (put_index r ident f') k = Inr f
     \<Longrightarrow> (k = ident \<and> f = f') \<or> (k \<noteq> ident \<and> get_index r k = Inr f)"
proof -
  have "map_of (map (\<lambda>(k, v). if k = ident then (k, f') else (k, v)) xs) k
          = (if k = ident then map_option (\<lambda>_. f') (map_of xs k) else map_of xs k)" for xs
    by (induction xs) auto
  then show "get_index (put_index r ident f') k = Inr f
     \<Longrightarrow> (k = ident \<and> f = f') \<or> (k \<noteq> ident \<and> get_index r k = Inr f)"
    by (auto simp: get_index_def put_index_def split: option.splits if_splits)
qed

lemma execute_recipe_provided:
  "execute_recipe r index i prefix = Inr index'
     \<Longrightarrow> was_provided_directly index' = was_provided_directly index"
  by (auto simp: execute_recipe_def Let_def was_provided_directly_def
           split: if_splits sum.splits)

lemma execute_plan_provided_finished:
  "execute_plan temp_dir sha1sum identifiers r plan = Inr r'
     \<Longrightarrow> \<forall>step \<in> set plan. \<forall>f. get_index r (fst step) = Inr f \<longrightarrow> \<not> was_provided_directly f
     \<Longrightarrow> provided_finished r \<Longrightarrow> provided_finished r'"
proof (induction plan arbitrary: r)
  case Nil
  then show ?case by simp
next
  case (Cons step plan)
  from Cons.prems(1) obtain index index' prefix where
    g: "get_index r (fst step) = Inr index"
    and e: "execute_recipe r index (snd step) prefix = Inr index'"
    and rest: "execute_plan temp_dir sha1sum identifiers (put_index r (fst step) index') plan = Inr r'"
    by (auto simp: Let_def split: sum.splits)
  from Cons.prems(2) g have np: "\<not> was_provided_directly index" by simp
  with execute_recipe_provided [OF e] have np': "\<not> was_provided_directly index'" by simp
  have inv: "provided_finished (put_index r (fst step) index')"
    using provided_finished_put_index [OF Cons.prems(3)] np' by simp
  have "\<forall>s \<in> set plan. \<forall>f. get_index (put_index r (fst step) index') (fst s) = Inr f
          \<longrightarrow> \<not> was_provided_directly f"
    using Cons.prems(2) np' by (auto dest!: get_index_put_index)
  from Cons.IH [OF rest this inv] show ?case .
qed

lemma remove_finished_filter:
  "remove_finished r xs = Inr plan
     \<Longrightarrow> plan = filter (\<lambda>e. \<exists>f. get_index r (fst e) = Inr f \<and> \<not> is_finished f) xs
       \<and> (\<forall>e \<in> set xs. \<exists>f. get_index r (fst e) = Inr f)"
proof (induction xs arbitrary: plan)
  case Nil
  then show ?case by simp
next
  case (Cons x xs)
  from Cons.prems obtain index plan' where
    g: "get_index r (fst x) = Inr index"
    and r: "remove_finished r xs = Inr plan'"
    and p: "plan = (if is_finished index then plan' else x # plan')"
    by (auto split: sum.splits)
  from Cons.IH [OF r] g p show ?case by auto
qed

lemma make_plan_unfinished:
  assumes "make_plan r identifiers = Some (Inr plan)" and "step \<in> set plan"
  shows "\<exists>f. get_index r (fst step) = Inr f \<and> \<not> is_finished f"
proof -
  from assms(1) obtain xs where "remove_finished r xs = Inr plan"
    by (auto simp: make_plan_def split: option.splits sum.splits)
  from remove_finished_filter [OF this] assms(2) show ?thesis by auto
qed

lemma make_indexes_provided_finished:
  assumes "make_indexes temp_dir sha1sum r identifiers = Some (Inr (r', removed))"
    and "provided_finished r"
  shows "provided_finished r'"
proof -
  from assms(1) obtain plan where
    mp: "make_plan r identifiers = Some (Inr plan)"
    and ex: "execute_plan temp_dir sha1sum identifiers r plan = Inr r'"
    by (auto simp: make_indexes_def split: option.splits sum.splits)
  have "\<forall>step \<in> set plan. \<forall>f. get_index r (fst step) = Inr f \<longrightarrow> \<not> was_provided_directly f"
  proof (intro ballI allI impI)
    fix step f
    assume "step \<in> set plan" and g: "get_index r (fst step) = Inr f"
    with make_plan_unfinished [OF mp] have "\<not> is_finished f" by fastforce
    moreover from get_index_in_registry [OF g] assms(2)
    have "was_provided_directly f \<longrightarrow> is_finished f"
      by (auto simp: provided_finished_def)
    ultimately show "\<not> was_provided_directly f" by blast
  qed
  from execute_plan_provided_finished [OF ex this assms(2)] show ?thesis .
qed

text \<open>
  C8, as amended: in every registry reachable through the public operations in which every
  list of filenames passed to \<^verbatim>\<open>provide\<close> is non-empty, every index that was provided
  directly is finished.
\<close>

theorem provided_directly_implies_finished:
  "reachable (\<lambda>fns. fns \<noteq> []) r \<Longrightarrow> provided_finished r"
proof (induction rule: reachable.induct)
  case reach_empty
  then show ?case by (simp add: provided_finished_def empty_registry_def)
next
  case (reach_register_index r ident suf r')
  then have "registry r' = insort_key fst (ident, new_IndexFile ident suf) (registry r)"
    by (auto simp: register_index_def split: if_splits)
  with reach_register_index.IH show ?case
    by (auto simp: provided_finished_def set_insort_key new_IndexFile_def was_provided_directly_def)
next
  case (reach_register_recipe r ident ins ex r')
  then obtain f ins' where g: "get_index r ident = Inr f"
    and r': "r' = put_index r ident (add_recipe f ins' ex)"
    by (auto simp: register_recipe_def split: sum.splits)
  from get_index_in_registry [OF g] reach_register_recipe.IH
  have "was_provided_directly f \<longrightarrow> is_finished f"
    by (auto simp: provided_finished_def)
  then have "was_provided_directly (add_recipe f ins' ex) \<longrightarrow> is_finished (add_recipe f ins' ex)"
    by (simp add: add_recipe_def was_provided_directly_def is_finished_def)
  from provided_finished_put_index [OF reach_register_recipe.IH this] r' show ?case by simp
next
  case (reach_provide r fns ident r')
  then obtain f where r': "r' = put_index r ident (IndexFile_provide f fns)"
    by (auto simp: provide_def split: sum.splits)
  from reach_provide have "is_finished (IndexFile_provide f fns)"
    by (simp add: IndexFile_provide_def is_finished_def)
  with provided_finished_put_index [OF reach_provide.IH] r' show ?case by simp
next
  case (reach_set_prefix r p)
  then show ?case by (simp add: provided_finished_def set_prefix_def)
next
  case (reach_set_intermediate_file_keeping r k)
  then show ?case by (simp add: provided_finished_def set_intermediate_file_keeping_def)
next
  case (reach_make_indexes r temp_dir sha1sum identifiers r' removed)
  then show ?case using make_indexes_provided_finished by blast
qed

section \<open>Example registries\<close>

definition write_output :: "string list list \<Rightarrow> string \<Rightarrow> string \<Rightarrow> string list" where
  "write_output ins prefix suf = [prefix @ ''.'' @ suf]"

definition index_file ::
  "string \<Rightarrow> string list \<Rightarrow> bool \<Rightarrow> IndexRecipe list \<Rightarrow> IndexFile" where
  "index_file ident fns provided rs =
     \<lparr>identifier = ident, suffix = ident, filenames = fns, provided_directly = provided,
      recipes = rs\<rparr>"

definition recipe_from :: "string list \<Rightarrow> IndexRecipe" where
  "recipe_from ins = \<lparr>inputs = ins, exec = write_output\<rparr>"

definition registry_of :: "IndexFile list \<Rightarrow> IndexRegistry" where
  "registry_of fs =
     \<lparr>registry = map (\<lambda>f. (identifier f, f)) fs, registered_suffixes = set (map suffix fs),
      output_prefix = ''index'', keep_intermediates = False\<rparr>"

text \<open>A, registered and then provided with an empty list of filenames.\<close>

definition registry_A :: IndexRegistry where
  "registry_A = registry_of [index_file ''A'' [] False []]"

definition registry_A_provided :: IndexRegistry where
  "registry_A_provided = registry_of [index_file ''A'' [] True []]"

lemma registry_A_steps:
  "register_index empty_registry ''A'' ''A'' = Inr registry_A"
  "provide registry_A ''A'' [] = Inr registry_A_provided"
  by (simp_all add: register_index_def provide_def registry_count_def empty_registry_def
        registry_A_def registry_A_provided_def registry_of_def index_file_def new_IndexFile_def
        get_index_def put_index_def IndexFile_provide_def)

text \<open>
  C8 as stated fails: after \<^verbatim>\<open>provide\<close> with the empty list the index was provided
  directly and is not finished.
\<close>

theorem provide_empty_list_counterexample:
  "reachable (\<lambda>fns. True) registry_A_provided
   \<and> get_index registry_A_provided ''A'' = Inr (index_file ''A'' [] True [])
   \<and> was_provided_directly (index_file ''A'' [] True [])
   \<and> \<not> is_finished (index_file ''A'' [] True [])"
proof -
  have "reachable (\<lambda>fns. True) registry_A"
    using reach_register_index [OF reach_empty registry_A_steps(1)] .
  then have "reachable (\<lambda>fns. True) registry_A_provided"
    using reach_provide [OF _ _ registry_A_steps(2)] by simp
  then show ?thesis
    by (simp add: registry_A_provided_def registry_of_def get_index_def index_file_def
          was_provided_directly_def is_finished_def)
qed

text \<open>A, registered and then provided with one filename.\<close>

definition registry_A_file :: IndexRegistry where
  "registry_A_file = registry_of [index_file ''A'' [''a.fasta''] True []]"

lemma registry_A_file_step:
  "provide registry_A ''A'' [''a.fasta''] = Inr registry_A_file"
  by (simp add: provide_def registry_A_def registry_A_file_def registry_of_def index_file_def
        get_index_def put_index_def IndexFile_provide_def)

theorem provided_directly_implies_finished_witness:
  "reachable (\<lambda>fns. fns \<noteq> []) registry_A_file \<and> provided_finished registry_A_file"
proof -
  have "reachable (\<lambda>fns. fns \<noteq> []) registry_A"
    using reach_register_index [OF reach_empty registry_A_steps(1)] .
  then have h: "reachable (\<lambda>fns. fns \<noteq> []) registry_A_file"
    using reach_provide [OF _ _ registry_A_file_step] by simp
  show ?thesis using h provided_directly_implies_finished [OF h] by simp
qed

definition alias_first :: "string list list \<Rightarrow> string \<Rightarrow> string \<Rightarrow> string list" where
  "alias_first ins prefix suf = hd ins"

text \<open>
  A is provided, B aliases the file of A, C is written from B; C is requested.
\<close>

definition registry_alias :: IndexRegistry where
  "registry_alias = registry_of
     [index_file ''A'' [''a.fasta''] True [],
      index_file ''B'' [] False [\<lparr>inputs = [''A''], exec = alias_first\<rparr>],
      index_file ''C'' [] False [recipe_from [''B'']],
      index_file ''D'' [] False [recipe_from [''A'']],
      index_file ''E'' [] False [recipe_from [''D'']]]"

definition all_filenames :: "IndexRegistry \<Rightarrow> (string \<times> string list) list" where
  "all_filenames r = map (\<lambda>(k, index). (k, get_filenames index)) (registry r)"

lemma registry_alias_run:
  "map_option (map_sum id (\<lambda>(r', removed). (all_filenames r', removed)))
     (make_indexes ''/tmp'' (\<lambda>x. x) registry_alias [''C'', ''E''])
     = Some (Inr ([(''A'', [''a.fasta'']), (''B'', [''a.fasta'']), (''C'', [''index.C'']),
                   (''D'', [''/tmp/D.D'']), (''E'', [''index.E''])], [''/tmp/D.D'']))"
  by code_simp


lemma map_result_SomeInr:
  "map_option (map_sum id f) x = Some (Inr y) \<Longrightarrow> \<exists>z. x = Some (Inr z) \<and> f z = y"
  by (cases x) (auto simp: map_sum_def split: sum.splits)

theorem cleanup_removes_exactly_unkept_intermediates_witness:
  "\<not> keep_intermediates registry_alias
   \<and> (\<exists>r'. make_indexes ''/tmp'' (\<lambda>x. x) registry_alias [''C'', ''E'']
               = Some (Inr (r', [''/tmp/D.D'']))
          \<and> all_filenames r' = [(''A'', [''a.fasta'']), (''B'', [''a.fasta'']), (''C'', [''index.C'']),
                   (''D'', [''/tmp/D.D'']), (''E'', [''index.E''])]
          \<and> set [''/tmp/D.D''] = intermediate_files [''C'', ''E''] r' - to_keep [''C'', ''E''] r'
          \<and> (\<forall>(k, index) \<in> set (registry r').
                \<not> is_intermediate [''C'', ''E''] index
                  \<longrightarrow> set (get_filenames index) \<inter> set [''/tmp/D.D''] = {}))"
proof -
  have k: "\<not> keep_intermediates registry_alias"
    by (simp add: registry_alias_def registry_of_def)
  from map_result_SomeInr [OF registry_alias_run] obtain z where
    z: "make_indexes ''/tmp'' (\<lambda>x. x) registry_alias [''C'', ''E''] = Some (Inr z)"
    and fz: "(\<lambda>(r', removed). (all_filenames r', removed)) z =
       ([(''A'', [''a.fasta'']), (''B'', [''a.fasta'']), (''C'', [''index.C'']),
                   (''D'', [''/tmp/D.D'']), (''E'', [''index.E''])], [''/tmp/D.D''])"
    by blast
  obtain r' removed where zp: "z = (r', removed)" by (cases z)
  from fz zp have rm: "removed = [''/tmp/D.D'']"
    and obs: "all_filenames r' = [(''A'', [''a.fasta'']), (''B'', [''a.fasta'']),
                (''C'', [''index.C'']), (''D'', [''/tmp/D.D'']), (''E'', [''index.E''])]"
    by simp_all
  from z zp rm have run: "make_indexes ''/tmp'' (\<lambda>x. x) registry_alias [''C'', ''E'']
            = Some (Inr (r', [''/tmp/D.D'']))" by simp
  from cleanup_removes_exactly_unkept_intermediates [OF run k]
  have "set [''/tmp/D.D''] = intermediate_files [''C'', ''E''] r' - to_keep [''C'', ''E''] r'
          \<and> (\<forall>(k, index) \<in> set (registry r').
                \<not> is_intermediate [''C'', ''E''] index
                  \<longrightarrow> set (get_filenames index) \<inter> set [''/tmp/D.D''] = {})" .
  with k run obs show ?thesis by blast
qed

section \<open>What the plan leaves out\<close>

lemma selected_elements_of_make_plan:
  assumes "make_plan r end_products = Some (Inr plan)"
  obtains identifier_order selected where
    "dependency_order r = Some (Inr identifier_order)"
    "selected_elements r end_products = Some (Inr selected)"
    "remove_finished r
       (sort_key (\<lambda>a. dep_order_of_identifier identifier_order (fst a)) selected) = Inr plan"
  using assms unfolding make_plan_def selected_elements_def
  by (auto split: option.splits sum.splits)

text \<open>
  C7, as amended: the plan that \<^verbatim>\<open>make_plan\<close> returns consists of exactly the selected
  (index, recipe) pairs whose index is not finished. Every finished index, whether it was
  provided directly or built by an earlier run, is left out, and every selected index that is
  not finished is retained.
\<close>

theorem make_plan_removes_exactly_finished:
  assumes "make_plan r end_products = Some (Inr plan)"
  shows "\<exists>selected. selected_elements r end_products = Some (Inr selected)
           \<and> (\<forall>e \<in> set selected. \<exists>f. get_index r (fst e) = Inr f)
           \<and> set plan = {e \<in> set selected. \<exists>f. get_index r (fst e) = Inr f \<and> \<not> is_finished f}"
proof -
  from assms obtain identifier_order selected where
    sel: "selected_elements r end_products = Some (Inr selected)"
    and rf: "remove_finished r
       (sort_key (\<lambda>a. dep_order_of_identifier identifier_order (fst a)) selected) = Inr plan"
    by (rule selected_elements_of_make_plan)
  from remove_finished_filter [OF rf]
  have "set plan = {e \<in> set selected. \<exists>f. get_index r (fst e) = Inr f \<and> \<not> is_finished f}"
    and "\<forall>e \<in> set selected. \<exists>f. get_index r (fst e) = Inr f"
    by auto
  with sel show ?thesis by blast
qed

text \<open>
  A is provided; B has been built from A by an earlier \<^verbatim>\<open>make_indexes\<close>; C is made
  from B.
\<close>

definition registry_chain :: IndexRegistry where
  "registry_chain = registry_of
     [index_file ''A'' [''a.fasta''] True [],
      index_file ''B'' [] False [recipe_from [''A'']],
      index_file ''C'' [] False [recipe_from [''B'']]]"

definition registry_chain_built :: IndexRegistry where
  "registry_chain_built = registry_of
     [index_file ''A'' [''a.fasta''] True [],
      index_file ''B'' [''index.B''] False [recipe_from [''A'']],
      index_file ''C'' [] False [recipe_from [''B'']]]"

lemma registry_chain_plan_B: "make_plan registry_chain [''B''] = Some (Inr [(''B'', 0)])"
  by code_simp

lemma registry_chain_execute_B:
  "execute_plan temp_dir sha1sum [''B''] registry_chain [(''B'', 0)] = Inr registry_chain_built"
  by (simp add: registry_chain_def registry_chain_built_def registry_of_def index_file_def
        recipe_from_def write_output_def get_index_def put_index_def execute_recipe_def
        is_intermediate_def was_provided_directly_def get_identifier_def is_finished_def
        IndexRecipe_execute_def get_filenames_def)

lemma registry_chain_make_indexes_B:
  "make_indexes temp_dir sha1sum registry_chain [''B''] = Some (Inr (registry_chain_built, []))"
proof -
  have "removed_files [''B''] registry_chain_built = []"
    by code_simp
  then show ?thesis
    unfolding make_indexes_def registry_chain_plan_B
    by (simp del: execute_plan.simps add: registry_chain_execute_B)
qed

lemma registry_chain_built_plan_C:
  "selected_elements registry_chain_built [''C''] = Some (Inr [(''C'', 0), (''B'', 0)])"
  "make_plan registry_chain_built [''C''] = Some (Inr [(''C'', 0)])"
  by code_simp+

text \<open>
  C7 as stated fails: B was built by \<^verbatim>\<open>make_indexes\<close>, not provided directly; planning
  for C selects it and the returned plan leaves it out.
\<close>

theorem finished_but_not_provided_counterexample:
  "make_indexes ''/tmp'' (\<lambda>x. x) registry_chain [''B''] = Some (Inr (registry_chain_built, []))
   \<and> selected_elements registry_chain_built [''C''] = Some (Inr [(''C'', 0), (''B'', 0)])
   \<and> make_plan registry_chain_built [''C''] = Some (Inr [(''C'', 0)])
   \<and> get_index registry_chain_built ''B'' = Inr (index_file ''B'' [''index.B''] False [recipe_from [''A'']])
   \<and> \<not> was_provided_directly (index_file ''B'' [''index.B''] False [recipe_from [''A'']])"
proof -
  have "get_index registry_chain_built ''B'' = Inr (index_file ''B'' [''index.B''] False [recipe_from [''A'']])"
    by (simp add: registry_chain_built_def registry_of_def get_index_def index_file_def)
  moreover have "\<not> was_provided_directly (index_file ''B'' [''index.B''] False [recipe_from [''A'']])"
    by (simp add: was_provided_directly_def index_file_def)
  ultimately show ?thesis
    using registry_chain_make_indexes_B registry_chain_built_plan_C by simp
qed

theorem make_plan_removes_exactly_finished_witness:
  "make_plan registry_chain_built [''C''] = Some (Inr [(''C'', 0)])
   \<and> (\<exists>selected. selected_elements registry_chain_built [''C''] = Some (Inr selected)
           \<and> (\<forall>e \<in> set selected. \<exists>f. get_index registry_chain_built (fst e) = Inr f)
           \<and> set [(''C'', 0)] = {e \<in> set selected.
                 \<exists>f. get_index registry_chain_built (fst e) = Inr f \<and> \<not> is_finished f})"
  using make_plan_removes_exactly_finished [OF registry_chain_built_plan_C(2)]
    registry_chain_built_plan_C(2) by simp

section \<open>Kahn's loop\<close>

definition graph_ok :: "nat list list \<Rightarrow> bool" where
  "graph_ok g = (\<forall>i < length g. distinct (g ! i) \<and> (\<forall>j \<in> set (g ! i). j < length g))"

definition preds :: "nat list list \<Rightarrow> nat \<Rightarrow> nat set" where
  "preds g j = {i. i < length g \<and> j \<in> set (g ! i)}"

definition kahn_inv :: "nat list list \<Rightarrow> kahn_state \<Rightarrow> bool" where
  "kahn_inv g = (\<lambda>(deg, stack, order).
     length deg = length g \<and> distinct (stack @ order) \<and>
     (\<forall>j \<in> set stack \<union> set order. j < length g) \<and>
     (\<forall>j < length g. deg ! j = card (preds g j - set order)) \<and>
     (\<forall>j < length g. j \<in> set stack \<union> set order \<longleftrightarrow> deg ! j = 0) \<and>
     (\<forall>p < length order. preds g (order ! p) \<subseteq> set (take p order)))"

lemma finite_preds: "finite (preds g j)"
  by (simp add: preds_def)

lemma kahn_visit_positive:
  "j < length deg \<Longrightarrow> 1 \<le> deg ! j \<Longrightarrow>
     kahn_visit j (deg, st) = (deg[j := deg ! j - 1], if deg ! j = 1 then j # st else st)"
  by (auto simp: kahn_visit_def size_t_dec_def Let_def)

lemma fold_kahn_visit:
  "distinct js \<Longrightarrow> \<forall>j \<in> set js. j < length deg \<and> 1 \<le> deg ! j \<Longrightarrow>
     fold kahn_visit js (deg, st) =
       (map (\<lambda>k. if k \<in> set js then deg ! k - 1 else deg ! k) [0..<length deg],
        rev (filter (\<lambda>j. deg ! j = 1) js) @ st)"
proof (induction js arbitrary: deg st)
  case Nil
  then show ?case by (simp add: map_nth)
next
  case (Cons j js)
  let ?deg = "deg[j := deg ! j - 1]"
  let ?st = "if deg ! j = 1 then j # st else st"
  from Cons.prems have j: "j < length deg" "1 \<le> deg ! j" "j \<notin> set js" "distinct js"
    by auto
  have same: "?deg ! k = deg ! k" if "k \<in> set js" for k
    using that j(3) by (metis nth_list_update_neq)
  have pre: "\<forall>k \<in> set js. k < length ?deg \<and> 1 \<le> ?deg ! k"
    using Cons.prems(2) same by simp
  have "fold kahn_visit (j # js) (deg, st) = fold kahn_visit js (?deg, ?st)"
    using kahn_visit_positive [OF j(1) j(2)] by simp
  also have "\<dots> = (map (\<lambda>k. if k \<in> set js then ?deg ! k - 1 else ?deg ! k) [0..<length ?deg],
        rev (filter (\<lambda>k. ?deg ! k = 1) js) @ ?st)"
    by (rule Cons.IH [OF j(4) pre])
  also have "map (\<lambda>k. if k \<in> set js then ?deg ! k - 1 else ?deg ! k) [0..<length ?deg]
        = map (\<lambda>k. if k \<in> set (j # js) then deg ! k - 1 else deg ! k) [0..<length deg]"
    using j(1) j(3) by (auto simp: nth_list_update)
  also have "filter (\<lambda>k. ?deg ! k = 1) js = filter (\<lambda>k. deg ! k = 1) js"
    using same by (auto intro: filter_cong)
  also have "rev (filter (\<lambda>k. deg ! k = 1) js) @ ?st = rev (filter (\<lambda>k. deg ! k = 1) (j # js)) @ st"
    by simp
  finally show ?case .
qed


lemma kahn_step_inv:
  assumes ok: "graph_ok g" and inv: "kahn_inv g (deg, stack, order)" and ne: "stack \<noteq> []"
  shows "kahn_inv g (kahn_step g (deg, stack, order))"
proof -
  from ne obtain i st where stack: "stack = i # st" by (cases stack) auto
  let ?n = "length g"
  let ?js = "g ! i"
  from inv stack have len: "length deg = ?n"
    and dist: "distinct (i # st @ order)"
    and bound: "\<forall>j \<in> set (i # st) \<union> set order. j < ?n"
    and cnt: "\<forall>j < ?n. deg ! j = card (preds g j - set order)"
    and zero: "\<forall>j < ?n. j \<in> set (i # st) \<union> set order \<longleftrightarrow> deg ! j = 0"
    and topo: "\<forall>p < length order. preds g (order ! p) \<subseteq> set (take p order)"
    by (auto simp: kahn_inv_def)
  from bound have i: "i < ?n" by simp
  from dist have i_new: "i \<notin> set order" "i \<notin> set st" by auto
  from ok i have js: "distinct ?js" "\<forall>j \<in> set ?js. j < ?n"
    by (auto simp: graph_ok_def)
  have in_js: "j \<in> set ?js \<longleftrightarrow> i \<in> preds g j" for j
    using i by (simp add: preds_def)
  have pos: "1 \<le> deg ! j" if "j \<in> set ?js" for j
  proof -
    from that js have "j < ?n" by simp
    moreover from that in_js i_new have "i \<in> preds g j - set order" by simp
    then have "card (preds g j - set order) \<noteq> 0"
      using finite_preds [of g j] by auto
    ultimately show ?thesis using cnt by simp
  qed
  have fresh: "j \<notin> set (i # st) \<union> set order" if "j \<in> set ?js" for j
    using pos [OF that] zero js(2) that by force
  define deg' where "deg' = map (\<lambda>k. if k \<in> set ?js then deg ! k - 1 else deg ! k) [0..<length deg]"
  define pushed where "pushed = filter (\<lambda>j. deg ! j = 1) ?js"
  have "fold kahn_visit ?js (deg, st) = (deg', rev pushed @ st)"
    unfolding deg'_def pushed_def
    by (rule fold_kahn_visit) (use js pos len in auto)
  then have step: "kahn_step g (deg, stack, order) = (deg', rev pushed @ st, order @ [i])"
    by (simp add: kahn_step_def stack)
  have deg'_nth: "deg' ! k = (if k \<in> set ?js then deg ! k - 1 else deg ! k)" if "k < ?n" for k
    using that len by (simp add: deg'_def)
  have pushed_set: "set pushed = {j \<in> set ?js. deg ! j = 1}"
    by (auto simp: pushed_def)
  have c1: "length deg' = ?n" by (simp add: deg'_def len)
  have c2: "distinct ((rev pushed @ st) @ (order @ [i]))"
    using dist js(1) fresh by (auto simp: pushed_def)
  have c3: "\<forall>j \<in> set (rev pushed @ st) \<union> set (order @ [i]). j < ?n"
    using bound js(2) by (auto simp: pushed_def)
  have c4: "\<forall>j < ?n. deg' ! j = card (preds g j - set (order @ [i]))"
  proof (intro allI impI)
    fix j assume j: "j < ?n"
    show "deg' ! j = card (preds g j - set (order @ [i]))"
    proof (cases "j \<in> set ?js")
      case True
      then have "i \<in> preds g j - set order" using in_js i_new by simp
      moreover have "preds g j - set (order @ [i]) = (preds g j - set order) - {i}" by auto
      ultimately have "card (preds g j - set (order @ [i])) = card (preds g j - set order) - 1"
        using finite_preds [of g j] by simp
      with True j cnt show ?thesis by (simp add: deg'_nth)
    next
      case False
      then have "i \<notin> preds g j" using in_js by simp
      then have "preds g j - set (order @ [i]) = preds g j - set order" by auto
      with False j cnt show ?thesis by (simp add: deg'_nth)
    qed
  qed
  have c5: "\<forall>j < ?n. j \<in> set (rev pushed @ st) \<union> set (order @ [i]) \<longleftrightarrow> deg' ! j = 0"
  proof (intro allI impI)
    fix j assume j: "j < ?n"
    show "j \<in> set (rev pushed @ st) \<union> set (order @ [i]) \<longleftrightarrow> deg' ! j = 0"
    proof (cases "j \<in> set ?js")
      case True
      with pos have "1 \<le> deg ! j" by simp
      then have "deg' ! j = 0 \<longleftrightarrow> deg ! j = 1" using True j by (auto simp: deg'_nth)
      moreover have "j \<in> set (rev pushed @ st) \<union> set (order @ [i]) \<longleftrightarrow> j \<in> set pushed"
        using fresh [OF True] by auto
      ultimately show ?thesis using True by (simp add: pushed_set)
    next
      case False
      then have "j \<notin> set pushed" by (simp add: pushed_set)
      then have "j \<in> set (rev pushed @ st) \<union> set (order @ [i])
                  \<longleftrightarrow> j \<in> set (i # st) \<union> set order" by auto
      with False j zero show ?thesis by (simp add: deg'_nth)
    qed
  qed
  have c6: "\<forall>p < length (order @ [i]). preds g ((order @ [i]) ! p) \<subseteq> set (take p (order @ [i]))"
  proof (intro allI impI)
    fix p assume p: "p < length (order @ [i])"
    show "preds g ((order @ [i]) ! p) \<subseteq> set (take p (order @ [i]))"
    proof (cases "p < length order")
      case True
      with topo show ?thesis by (simp add: nth_append)
    next
      case False
      with p have pe: "p = length order" by simp
      from zero i have "deg ! i = 0" by auto
      with cnt i have "card (preds g i - set order) = 0" by simp
      then have "preds g i \<subseteq> set order"
        using finite_preds [of g i] by auto
      with pe show ?thesis by simp
    qed
  qed
  show ?thesis
    unfolding step kahn_inv_def prod.case by (intro conjI c1 c2 c3 c4 c5 c6)
qed


lemma fold_increment_length:
  "length (fold (\<lambda>i deg. deg[i := Suc (deg ! i)]) xs deg) = length deg"
  by (induction xs arbitrary: deg) auto

lemma fold_increment_nth:
  "j < length deg \<Longrightarrow>
     fold (\<lambda>i deg. deg[i := Suc (deg ! i)]) xs deg ! j = deg ! j + count_list xs j"
  by (induction xs arbitrary: deg) (auto simp: nth_list_update)

lemma count_list_concat:
  "count_list (concat xss) j = sum_list (map (\<lambda>xs. count_list xs j) xss)"
  by (induction xss) auto

lemma count_list_distinct:
  "distinct xs \<Longrightarrow> count_list xs j = (if j \<in> set xs then 1 else 0)"
  by (induction xs) auto

lemma sum_list_indicator:
  "sum_list (map (\<lambda>x. if P x then 1 else 0) xs) = length (filter P xs)"
  by (induction xs) auto

lemma initial_in_degree_nth:
  assumes "graph_ok g" and "j < length g"
  shows "initial_in_degree g ! j = card (preds g j)"
proof -
  have "\<forall>xs \<in> set g. distinct xs"
    using assms(1) by (auto simp: graph_ok_def in_set_conv_nth)
  then have "map (\<lambda>xs. count_list xs j) g = map (\<lambda>xs. if j \<in> set xs then 1 else 0) g"
    by (simp add: count_list_distinct)
  then have "sum_list (map (\<lambda>xs. count_list xs j) g) = length (filter (\<lambda>xs. j \<in> set xs) g)"
    by (simp only: sum_list_indicator)
  then have "count_list (concat g) j = length (filter (\<lambda>xs. j \<in> set xs) g)"
    by (simp only: count_list_concat)
  also have "\<dots> = card (preds g j)"
    by (simp add: length_filter_conv_card preds_def)
  finally show ?thesis
    using assms(2) by (simp add: initial_in_degree_def fold_increment_nth)
qed

lemma kahn_inv_initial:
  assumes "graph_ok g"
  shows "kahn_inv g (initial_in_degree g, initial_stack (initial_in_degree g), [])"
proof -
  have len: "length (initial_in_degree g) = length g"
    by (simp add: initial_in_degree_def fold_increment_length)
  have st: "set (initial_stack (initial_in_degree g))
              = {j. j < length g \<and> initial_in_degree g ! j = 0}"
    by (auto simp: initial_stack_def len)
  have d: "distinct (initial_stack (initial_in_degree g))"
    by (simp add: initial_stack_def)
  show ?thesis
    unfolding kahn_inv_def prod.case
    using len st d initial_in_degree_nth [OF assms] by auto
qed

lemma kahn_inv_length_bound:
  assumes "kahn_inv g (deg, stack, order)"
  shows "length stack + length order \<le> length g"
proof -
  from assms have d: "distinct (stack @ order)" and b: "set (stack @ order) \<subseteq> {0..<length g}"
    by (auto simp: kahn_inv_def)
  have "length (stack @ order) = card (set (stack @ order))"
    using distinct_card [OF d] by simp
  also from b have "\<dots> \<le> card {0..<length g}"
    by (intro card_mono) auto
  finally show ?thesis by simp
qed

lemma kahn_loop_terminates:
  assumes ok: "graph_ok g" and inv: "kahn_inv g s"
  shows "\<exists>t. kahn_loop g s = Some t"
  unfolding kahn_loop_def
proof (rule measure_while_option_Some [where P = "kahn_inv g"
         and f = "\<lambda>(deg, stack, order). length g - length order"], goal_cases)
  case (1 s)
  obtain deg stack order where s: "s = (deg, stack, order)" by (cases s)
  from 1 s have ne: "stack \<noteq> []" and i: "kahn_inv g (deg, stack, order)" by auto
  from kahn_inv_length_bound [OF i] ne have "length order < length g"
    by (cases stack) auto
  moreover have "kahn_step g (deg, stack, order)
      = (fst (kahn_step g (deg, stack, order)), fst (snd (kahn_step g (deg, stack, order))),
         order @ [hd stack])"
    by (simp add: kahn_step_def Let_def split: prod.splits)
  ultimately have "(case kahn_step g s of (deg, stack, order) \<Rightarrow> length g - length order)
      < (case s of (deg, stack, order) \<Rightarrow> length g - length order)"
    unfolding s by (metis (no_types, lifting) case_prod_conv diff_less_mono2 length_append_singleton lessI)
  with kahn_step_inv [OF ok i ne] s show ?case by simp
next
  case 2
  from inv show ?case .
qed

lemma kahn_loop_result:
  assumes ok: "graph_ok g" and inv: "kahn_inv g s"
    and res: "kahn_loop g s = Some (deg, stack, order)"
  shows "kahn_inv g (deg, [], order) \<and> stack = []"
proof -
  have "kahn_inv g (deg, stack, order)"
  proof (rule while_option_rule [where P = "kahn_inv g", OF _ res [unfolded kahn_loop_def] inv])
    fix s assume "kahn_inv g s" "case s of (deg, stack, order) \<Rightarrow> stack \<noteq> []"
    then show "kahn_inv g (kahn_step g s)"
      using kahn_step_inv [OF ok] by (cases s) auto
  qed
  moreover from while_option_stop [OF res [unfolded kahn_loop_def]] have "stack = []" by simp
  ultimately show ?thesis by simp
qed


section \<open>The dependency graph of a registry\<close>

text \<open>\<open>x\<close> is an input of a recipe of \<open>y\<close>.\<close>

definition depends :: "IndexRegistry \<Rightarrow> (string \<times> string) set" where
  "depends r = {(x, y). \<exists>f recipe. (y, f) \<in> set (registry r) \<and> recipe \<in> set (recipes f)
                           \<and> x \<in> set (inputs recipe)}"

definition cyclic :: "IndexRegistry \<Rightarrow> bool" where
  "cyclic r = (\<exists>x. (x, x) \<in> (depends r)\<^sup>+)"

lemma fold_map_upd:
  "fold (\<lambda>(x, i) m. m(x \<mapsto> i)) ps m = m ++ map_of (rev ps)"
  by (induction ps arbitrary: m) (auto simp: map_add_upd_left fun_eq_iff map_add_def split: option.splits)

lemma map_of_rev_distinct:
  assumes "distinct (map fst ps)"
  shows "map_of (rev ps) = map_of ps"
proof -
  have "map fst (rev ps) = rev (map fst ps)" by (simp add: rev_map)
  with assms have "distinct (map fst (rev ps))" by simp
  with assms show ?thesis by (simp add: map_of_inject_set)
qed

lemma index_map_nth:
  assumes "distinct xs" and "i < length xs"
  shows "index_map xs (xs ! i) = Some i"
proof -
  have d: "distinct (map fst (zip xs [0..<length xs]))" using assms(1) by simp
  have "index_map xs = map_of (rev (zip xs [0..<length xs]))"
    by (simp add: index_map_def fold_map_upd)
  also have "\<dots> = map_of (zip xs [0..<length xs])"
    using d by (rule map_of_rev_distinct)
  finally show ?thesis
    using map_of_zip_nth [of xs "[0..<length xs]" i] assms by simp
qed

lemma index_map_None: "x \<notin> set xs \<Longrightarrow> index_map xs x = None"
proof -
  assume "x \<notin> set xs"
  then have "x \<notin> fst ` set (rev (zip xs [0..<length xs]))"
    by (auto dest: set_zip_leftD)
  then show ?thesis
    by (simp add: index_map_def fold_map_upd map_of_eq_None_iff del: set_rev)
qed

lemma at_default_index_map_nth:
  "distinct xs \<Longrightarrow> i < length xs \<Longrightarrow> at_default (index_map xs) (xs ! i) = i"
  by (simp add: at_default_def index_map_nth)

lemma get_index_nth:
  assumes "distinct (map fst (registry r))" and "i < length (registry r)"
  shows "get_index r (graph_label r ! i) = Inr (snd (registry r ! i))"
proof -
  from assms(2) have "(graph_label r ! i, snd (registry r ! i)) \<in> set (registry r)"
    by (simp add: graph_label_def)
  with assms(1) have "map_of (registry r) (graph_label r ! i) = Some (snd (registry r ! i))"
    by simp
  then show ?thesis by (simp add: get_index_def)
qed

definition inputs_at :: "IndexRegistry \<Rightarrow> nat \<Rightarrow> string list" where
  "inputs_at r i = concat (map inputs (get_recipes (snd (registry r ! i))))"

lemma all_edges_wf:
  assumes "distinct (map fst (registry r))" and "\<forall>i \<in> set is. i < length (registry r)"
  shows "all_edges r is
           = Inr (concat (map (\<lambda>i. map (\<lambda>x. (graph_idx r x, i)) (inputs_at r i)) is))"
  using assms(2)
proof (induction "is")
  case Nil
  then show ?case by simp
next
  case (Cons i "is")
  then have "edges_into r i = Inr (map (\<lambda>x. (graph_idx r x, i)) (inputs_at r i))"
    using get_index_nth [OF assms(1), of i] by (simp add: edges_into_def inputs_at_def)
  with Cons show ?case by simp
qed

lemma distinct_remdups_adj_sorted:
  "sorted xs \<Longrightarrow> distinct (remdups_adj xs)"
  by (induction xs rule: remdups_adj.induct) (auto simp: order_less_le)

lemma adjacency_nth:
  "k < n \<Longrightarrow> set (adjacency n es ! k) = {i. (k, i) \<in> set es}"
  by (force simp: adjacency_def)

lemma adjacency_distinct:
  "k < n \<Longrightarrow> distinct (adjacency n es ! k)"
  by (simp add: adjacency_def distinct_remdups_adj_sorted)

lemma wf_registry_entry:
  assumes "wf_registry r" and "i < length (registry r)"
  shows "(graph_label r ! i, f) \<in> set (registry r) \<longleftrightarrow> f = snd (registry r ! i)"
proof -
  from assms(1) have d: "distinct (map fst (registry r))" by (simp add: wf_registry_def)
  from assms(2) have mem: "(graph_label r ! i, snd (registry r ! i)) \<in> set (registry r)"
    by (simp add: graph_label_def)
  have "f = snd (registry r ! i)" if "(graph_label r ! i, f) \<in> set (registry r)"
    using d mem that by (meson eq_key_imp_eq_value)
  with mem show ?thesis by auto
qed

lemma depends_nth:
  assumes wf: "wf_registry r" and i: "i < length (registry r)"
  shows "(x, graph_label r ! i) \<in> depends r \<longleftrightarrow> x \<in> set (inputs_at r i)"
proof
  assume "(x, graph_label r ! i) \<in> depends r"
  then obtain f recipe where "(graph_label r ! i, f) \<in> set (registry r)"
    and rc: "recipe \<in> set (recipes f)" "x \<in> set (inputs recipe)"
    unfolding depends_def by blast
  then have "f = snd (registry r ! i)" using wf_registry_entry [OF wf i] by simp
  with rc show "x \<in> set (inputs_at r i)"
    by (auto simp: inputs_at_def get_recipes_def)
next
  assume "x \<in> set (inputs_at r i)"
  then obtain recipe where rc: "recipe \<in> set (recipes (snd (registry r ! i)))"
    "x \<in> set (inputs recipe)"
    by (auto simp: inputs_at_def get_recipes_def)
  moreover have "(graph_label r ! i, snd (registry r ! i)) \<in> set (registry r)"
    using wf_registry_entry [OF wf i] by simp
  ultimately show "(x, graph_label r ! i) \<in> depends r"
    unfolding depends_def by blast
qed

lemma inputs_at_registered:
  assumes wf: "wf_registry r" and i: "i < length (registry r)" and x: "x \<in> set (inputs_at r i)"
  shows "\<exists>k < length (registry r). x = graph_label r ! k"
proof -
  obtain y f where yf: "registry r ! i = (y, f)" by (cases "registry r ! i")
  with i have mem: "(y, f) \<in> set (registry r)" by (metis nth_mem)
  from x yf obtain recipe where rc: "recipe \<in> set (recipes f)" "x \<in> set (inputs recipe)"
    by (auto simp: inputs_at_def get_recipes_def)
  from wf mem have "\<forall>recipe \<in> set (recipes f). \<forall>x \<in> set (inputs recipe). x \<in> fst ` set (registry r)"
    unfolding wf_registry_def by blast
  with rc have "x \<in> set (graph_label r)" by (simp add: graph_label_def)
  then obtain k where "k < length (graph_label r)" "graph_label r ! k = x"
    by (auto simp: in_set_conv_nth)
  then show ?thesis by (auto simp: graph_label_def)
qed

lemma dependency_graph_wf:
  assumes wf: "wf_registry r"
  shows "\<exists>g. dependency_graph r = Inr g \<and> length g = length (registry r) \<and> graph_ok g \<and>
           (\<forall>k < length g. \<forall>i < length g.
              i \<in> set (g ! k) \<longleftrightarrow> (graph_label r ! k, graph_label r ! i) \<in> depends r)"
proof -
  let ?n = "length (registry r)"
  let ?es = "concat (map (\<lambda>i. map (\<lambda>x. (graph_idx r x, i)) (inputs_at r i)) [0..<?n])"
  let ?g = "adjacency ?n ?es"
  from wf have d: "distinct (map fst (registry r))" by (simp add: wf_registry_def)
  then have dl: "distinct (graph_label r)" by (simp add: graph_label_def)
  have n: "length (graph_label r) = ?n" by (simp add: graph_label_def)
  have "all_edges r [0..<?n] = Inr ?es"
    by (rule all_edges_wf [OF d]) simp
  then have dg: "dependency_graph r = Inr ?g"
    by (simp add: dependency_graph_def n)
  have len: "length ?g = ?n" by (simp add: adjacency_def)
  have es: "(k, i) \<in> set ?es \<longleftrightarrow> i < ?n \<and> (\<exists>x \<in> set (inputs_at r i). graph_idx r x = k)" for k i
    by auto
  have ok: "graph_ok ?g"
    unfolding graph_ok_def len
  proof (intro allI impI conjI ballI)
    fix k j assume k: "k < ?n"
    show "distinct (?g ! k)" by (rule adjacency_distinct [OF k])
    assume "j \<in> set (?g ! k)"
    then have "(k, j) \<in> set ?es" using adjacency_nth [OF k, of ?es] by simp
    then show "j < ?n" using es by blast
  qed
  have rel: "i \<in> set (?g ! k) \<longleftrightarrow> (graph_label r ! k, graph_label r ! i) \<in> depends r"
    if k: "k < ?n" and i: "i < ?n" for k i
  proof -
    have "(\<exists>x \<in> set (inputs_at r i). graph_idx r x = k) \<longleftrightarrow> graph_label r ! k \<in> set (inputs_at r i)"
    proof
      assume "\<exists>x \<in> set (inputs_at r i). graph_idx r x = k"
      then obtain x where x: "x \<in> set (inputs_at r i)" "graph_idx r x = k" by blast
      from inputs_at_registered [OF wf i x(1)] obtain k' where
        k': "k' < ?n" "x = graph_label r ! k'" by blast
      with dl n have "graph_idx r x = k'"
        by (simp add: graph_idx_def at_default_index_map_nth)
      with x k' show "graph_label r ! k \<in> set (inputs_at r i)" by simp
    next
      assume "graph_label r ! k \<in> set (inputs_at r i)"
      moreover from dl n k have "graph_idx r (graph_label r ! k) = k"
        by (simp add: graph_idx_def at_default_index_map_nth)
      ultimately show "\<exists>x \<in> set (inputs_at r i). graph_idx r x = k" by blast
    qed
    moreover have "i \<in> set (?g ! k) \<longleftrightarrow> (k, i) \<in> set ?es"
      using adjacency_nth [OF k, of ?es] by simp
    ultimately show ?thesis
      using es [of k i] i depends_nth [OF wf i, of "graph_label r ! k"] by simp
  qed
  show ?thesis
  proof (intro exI conjI allI impI)
    show "dependency_graph r = Inr ?g" by (rule dg)
    show "length ?g = ?n" by (rule len)
    show "graph_ok ?g" by (rule ok)
    fix k i assume "k < length ?g" "i < length ?g"
    then show "i \<in> set (?g ! k) \<longleftrightarrow> (graph_label r ! k, graph_label r ! i) \<in> depends r"
      using rel len by simp
  qed
qed

definition precedes :: "'a \<Rightarrow> 'a \<Rightarrow> 'a list \<Rightarrow> bool" where
  "precedes x y xs = (\<exists>i j. i < j \<and> j < length xs \<and> xs ! i = x \<and> xs ! j = y)"

definition graph_edges :: "nat list list \<Rightarrow> (nat \<times> nat) set" where
  "graph_edges g = {(k, i). k < length g \<and> i \<in> set (g ! k)}"

lemma kahn_complete_order:
  assumes ok: "graph_ok g" and inv: "kahn_inv g (deg, [], order)"
    and len: "length order = length g"
  shows "distinct order \<and> set order = {0..<length g}
         \<and> (\<forall>(k, i) \<in> graph_edges g. precedes k i order)"
proof -
  from inv have d: "distinct order" and b: "set order \<subseteq> {0..<length g}"
    and topo: "\<forall>p < length order. preds g (order ! p) \<subseteq> set (take p order)"
    by (auto simp: kahn_inv_def)
  from d len have "card (set order) = card {0..<length g}"
    by (simp add: distinct_card)
  with b have all: "set order = {0..<length g}"
    by (intro card_subset_eq) auto
  have "precedes k i order" if k: "k < length g" and i: "i \<in> set (g ! k)" for k i
  proof -
    from k i have kp: "k \<in> preds g i" by (simp add: preds_def)
    from ok k i have "i < length g" by (auto simp: graph_ok_def)
    with all have "i \<in> set order" by simp
    then obtain p where p: "p < length order" "order ! p = i"
      by (auto simp: in_set_conv_nth)
    with topo kp have "k \<in> set (take p order)" by blast
    then obtain q where q: "q < length (take p order)" "take p order ! q = k"
      by (auto simp: in_set_conv_nth)
    then have "q < p" "order ! q = k" by auto
    with p show ?thesis unfolding precedes_def by blast
  qed
  then have "\<forall>(k, i) \<in> graph_edges g. precedes k i order"
    by (auto simp: graph_edges_def)
  with d all show ?thesis by blast
qed

lemma kahn_incomplete_cycle:
  assumes inv: "kahn_inv g (deg, [], order)" and len: "length order \<noteq> length g"
  shows "\<not> acyclic (graph_edges g)"
proof
  assume ac: "acyclic (graph_edges g)"
  let ?U = "{j. j < length g \<and> j \<notin> set order}"
  from inv have d: "distinct order" and b: "set order \<subseteq> {0..<length g}"
    and cnt: "\<forall>j < length g. deg ! j = card (preds g j - set order)"
    and zero: "\<forall>j < length g. j \<in> set order \<longleftrightarrow> deg ! j = 0"
    by (auto simp: kahn_inv_def)
  have "?U \<noteq> {}"
  proof
    assume "?U = {}"
    with b have "set order = {0..<length g}" by auto
    then have "card (set order) = length g" by simp
    with d len show False by (simp add: distinct_card)
  qed
  then obtain j0 where j0: "j0 \<in> ?U" by blast
  have "graph_edges g \<subseteq> {0..<length g} \<times> (\<Union>k \<in> {0..<length g}. set (g ! k))"
    by (auto simp: graph_edges_def)
  then have "finite (graph_edges g)"
    by (rule finite_subset) auto
  then have "wf (graph_edges g)" using ac by (rule finite_acyclic_wf)
  from wfE_min [OF this j0] obtain z where z: "z \<in> ?U"
    and min: "\<And>y. (y, z) \<in> graph_edges g \<Longrightarrow> y \<notin> ?U" by blast
  from z zero have "deg ! z \<noteq> 0" by auto
  with z cnt have "card (preds g z - set order) \<noteq> 0" by simp
  then obtain y where y: "y \<in> preds g z" "y \<notin> set order"
    by (metis Diff_iff card.empty equals0I)
  then have "(y, z) \<in> graph_edges g" "y \<in> ?U"
    by (auto simp: preds_def graph_edges_def)
  with min show False by blast
qed

lemma precedes_trans:
  "distinct xs \<Longrightarrow> precedes x y xs \<Longrightarrow> precedes y z xs \<Longrightarrow> precedes x z xs"
  unfolding precedes_def
  by (metis (no_types, opaque_lifting) nth_eq_iff_index_eq order_less_trans)

lemma precedes_irrefl:
  "distinct xs \<Longrightarrow> \<not> precedes x x xs"
  unfolding precedes_def
  by (metis nth_eq_iff_index_eq order_less_irrefl order_less_trans)

lemma precedes_trancl:
  assumes d: "distinct xs" and e: "\<forall>(x, y) \<in> R. precedes x y xs" and t: "(x, y) \<in> R\<^sup>+"
  shows "precedes x y xs"
  using t
proof (induction rule: trancl_induct)
  case (base y)
  with e show ?case by blast
next
  case (step y z)
  from step.hyps(2) e have "precedes y z xs" by blast
  with step.IH show ?case by (rule precedes_trans [OF d])
qed

lemma ordered_acyclic:
  assumes "distinct xs" and "\<forall>(x, y) \<in> R. precedes x y xs"
  shows "\<forall>x. (x, x) \<notin> R\<^sup>+"
  using precedes_trancl [OF assms] precedes_irrefl [OF assms(1)] by blast

lemma precedes_map:
  "precedes x y xs \<Longrightarrow> precedes (f x) (f y) (map f xs)"
  unfolding precedes_def by (metis length_map nth_map order_less_trans)

lemma trancl_image:
  assumes "\<forall>(a, b) \<in> E. (f a, f b) \<in> R" and "(a, b) \<in> E\<^sup>+"
  shows "(f a, f b) \<in> R\<^sup>+"
  using assms(2)
proof (induction rule: trancl_induct)
  case (base y)
  with assms(1) show ?case by blast
next
  case (step y z)
  from step.hyps(2) assms(1) have "(f y, f z) \<in> R" by blast
  with step.IH show ?case by (rule trancl_into_trancl)
qed

text \<open>What \<^verbatim>\<open>dependency_order\<close> computes for a well-formed registry.\<close>

lemma dependency_order_run:
  assumes wf: "wf_registry r"
  shows "\<exists>g deg order.
           dependency_graph r = Inr g \<and> length g = length (registry r) \<and> graph_ok g \<and>
           (\<forall>k < length g. \<forall>i < length g.
              i \<in> set (g ! k) \<longleftrightarrow> (graph_label r ! k, graph_label r ! i) \<in> depends r) \<and>
           kahn_inv g (deg, [], order) \<and>
           dependency_order r =
             (if length order \<noteq> length g then Some (Inl FatalExit)
              else Some (Inr (map (\<lambda>i. graph_label r ! i) order)))"
proof -
  from dependency_graph_wf [OF wf] obtain g where
    g: "dependency_graph r = Inr g" "length g = length (registry r)" "graph_ok g"
    "\<forall>k < length g. \<forall>i < length g.
              i \<in> set (g ! k) \<longleftrightarrow> (graph_label r ! k, graph_label r ! i) \<in> depends r"
    by blast
  let ?deg = "initial_in_degree g"
  have init: "kahn_inv g (?deg, initial_stack ?deg, [])"
    by (rule kahn_inv_initial [OF g(3)])
  from kahn_loop_terminates [OF g(3) init] obtain t where
    t: "kahn_loop g (?deg, initial_stack ?deg, []) = Some t" by blast
  obtain deg stack order where ts: "t = (deg, stack, order)" by (cases t)
  from kahn_loop_result [OF g(3) init t [unfolded ts]]
  have inv: "kahn_inv g (deg, [], order)" and "stack = []" by simp_all
  have "dependency_order r =
             (if length order \<noteq> length g then Some (Inl FatalExit)
              else Some (Inr (map (\<lambda>i. graph_label r ! i) order)))"
    by (simp add: dependency_order_def g(1) Let_def t ts)
  with g inv show ?thesis by blast
qed

lemma depends_graph_edges:
  assumes wf: "wf_registry r" and len: "length g = length (registry r)" and ok: "graph_ok g"
    and rel: "\<forall>k < length g. \<forall>i < length g.
              i \<in> set (g ! k) \<longleftrightarrow> (graph_label r ! k, graph_label r ! i) \<in> depends r"
  shows "\<forall>(k, i) \<in> graph_edges g. (graph_label r ! k, graph_label r ! i) \<in> depends r"
    and "\<forall>(x, y) \<in> depends r. \<exists>k i. (k, i) \<in> graph_edges g
            \<and> x = graph_label r ! k \<and> y = graph_label r ! i"
proof -
  show "\<forall>(k, i) \<in> graph_edges g. (graph_label r ! k, graph_label r ! i) \<in> depends r"
  proof (clarify)
    fix k i assume "(k, i) \<in> graph_edges g"
    then have k: "k < length g" and i: "i \<in> set (g ! k)" by (auto simp: graph_edges_def)
    with ok have "i < length g" by (auto simp: graph_ok_def)
    with rel k i show "(graph_label r ! k, graph_label r ! i) \<in> depends r" by blast
  qed
  show "\<forall>(x, y) \<in> depends r. \<exists>k i. (k, i) \<in> graph_edges g
            \<and> x = graph_label r ! k \<and> y = graph_label r ! i"
  proof (clarify)
    fix x y assume xy: "(x, y) \<in> depends r"
    then obtain f where "(y, f) \<in> set (registry r)" unfolding depends_def by blast
    then obtain i where i: "i < length (registry r)" "registry r ! i = (y, f)"
      by (auto simp: in_set_conv_nth)
    then have y: "y = graph_label r ! i" by (simp add: graph_label_def)
    with xy depends_nth [OF wf i(1)] have "x \<in> set (inputs_at r i)" by simp
    from inputs_at_registered [OF wf i(1) this] obtain k where
      k: "k < length (registry r)" "x = graph_label r ! k" by blast
    with xy y rel len i(1) have "i \<in> set (g ! k)" by simp
    with k len have "(k, i) \<in> graph_edges g" by (simp add: graph_edges_def)
    with k y show "\<exists>k i. (k, i) \<in> graph_edges g \<and> x = graph_label r ! k \<and> y = graph_label r ! i"
      by blast
  qed
qed

lemma dependency_order_sound:
  assumes wf: "wf_registry r" and res: "dependency_order r = Some (Inr L)"
  shows "distinct L \<and> set L = set (graph_label r) \<and> length L = length (graph_label r)
         \<and> (\<forall>(x, y) \<in> depends r. precedes x y L)"
proof -
  from dependency_order_run [OF wf] obtain g deg order where
    g: "length g = length (registry r)" "graph_ok g"
    "\<forall>k < length g. \<forall>i < length g.
              i \<in> set (g ! k) \<longleftrightarrow> (graph_label r ! k, graph_label r ! i) \<in> depends r"
    and inv: "kahn_inv g (deg, [], order)"
    and run: "dependency_order r =
             (if length order \<noteq> length g then Some (Inl FatalExit)
              else Some (Inr (map (\<lambda>i. graph_label r ! i) order)))"
    by blast
  from run res have len: "length order = length g"
    and L: "L = map (\<lambda>i. graph_label r ! i) order"
    by (auto split: if_splits)
  from kahn_complete_order [OF g(2) inv len]
  have d: "distinct order" and all: "set order = {0..<length g}"
    and pre: "\<forall>(k, i) \<in> graph_edges g. precedes k i order" by auto
  from wf have dl: "distinct (graph_label r)" by (simp add: wf_registry_def graph_label_def)
  have n: "length (graph_label r) = length g" by (simp add: graph_label_def g(1))
  have "inj_on (\<lambda>i. graph_label r ! i) (set order)"
    unfolding all using dl n by (auto simp: inj_on_def nth_eq_iff_index_eq)
  with d have c1: "distinct L" by (simp add: L distinct_map)
  have c2: "set L = set (graph_label r)"
    unfolding L set_map all using n by (auto simp: set_conv_nth)
  have c3: "length L = length (graph_label r)" by (simp add: L len n)
  have c4: "\<forall>(x, y) \<in> depends r. precedes x y L"
  proof (clarify)
    fix x y assume "(x, y) \<in> depends r"
    with depends_graph_edges(2) [OF wf g] obtain k i where
      "(k, i) \<in> graph_edges g" "x = graph_label r ! k" "y = graph_label r ! i" by blast
    with pre show "precedes x y L"
      unfolding L using precedes_map [of k i order "\<lambda>i. graph_label r ! i"] by blast
  qed
  from c1 c2 c3 c4 show ?thesis by blast
qed

lemma dependency_order_total:
  assumes wf: "wf_registry r"
  shows "dependency_order r = Some (Inl FatalExit) \<and> cyclic r
       \<or> (\<exists>L. dependency_order r = Some (Inr L))"
proof -
  from dependency_order_run [OF wf] obtain g deg order where
    g: "length g = length (registry r)" "graph_ok g"
    "\<forall>k < length g. \<forall>i < length g.
              i \<in> set (g ! k) \<longleftrightarrow> (graph_label r ! k, graph_label r ! i) \<in> depends r"
    and inv: "kahn_inv g (deg, [], order)"
    and run: "dependency_order r =
             (if length order \<noteq> length g then Some (Inl FatalExit)
              else Some (Inr (map (\<lambda>i. graph_label r ! i) order)))"
    by blast
  show ?thesis
  proof (cases "length order = length g")
    case True
    with run show ?thesis by simp
  next
    case False
    from kahn_incomplete_cycle [OF inv False] obtain k where
      "(k, k) \<in> (graph_edges g)\<^sup>+" by (auto simp: acyclic_def)
    from trancl_image [OF depends_graph_edges(1) [OF wf g] this]
    have "cyclic r" unfolding cyclic_def by blast
    with run False show ?thesis by simp
  qed
qed

lemma dependency_order_acyclic:
  assumes wf: "wf_registry r" and res: "dependency_order r = Some (Inr L)"
  shows "\<not> cyclic r"
proof -
  from dependency_order_sound [OF wf res]
  have "distinct L" "\<forall>(x, y) \<in> depends r. precedes x y L" by auto
  from ordered_acyclic [OF this] show ?thesis by (simp add: cyclic_def)
qed

text \<open>
  C5: for a well-formed registry \<^verbatim>\<open>dependency_order\<close> ends. If the graph of indexes and
  recipes has a cycle it ends in the fatal exit; otherwise it returns a permutation of all
  registered identifiers in which every input of every recipe precedes the output of the
  recipe.
\<close>

theorem dependency_order_topological:
  assumes "wf_registry r"
  shows "(cyclic r \<longrightarrow> dependency_order r = Some (Inl FatalExit))
       \<and> (\<not> cyclic r \<longrightarrow>
            (\<exists>L. dependency_order r = Some (Inr L) \<and> distinct L
                 \<and> set L = set (graph_label r) \<and> length L = length (graph_label r)
                 \<and> (\<forall>(x, y) \<in> depends r. precedes x y L)))"
  using dependency_order_total [OF assms] dependency_order_acyclic [OF assms]
    dependency_order_sound [OF assms]
  by (metis (no_types, lifting))

text \<open>A is made from B and B from A.\<close>

definition registry_cycle :: IndexRegistry where
  "registry_cycle = registry_of
     [index_file ''A'' [] False [recipe_from [''B'']],
      index_file ''B'' [] False [recipe_from [''A'']]]"

lemma registry_chain_wf: "wf_registry registry_chain"
  by (simp add: wf_registry_def registry_chain_def registry_of_def index_file_def recipe_from_def)

lemma registry_cycle_wf: "wf_registry registry_cycle"
  by (simp add: wf_registry_def registry_cycle_def registry_of_def index_file_def recipe_from_def)

lemma registry_chain_order: "dependency_order registry_chain = Some (Inr [''A'', ''B'', ''C''])"
  by code_simp

lemma registry_cycle_order: "dependency_order registry_cycle = Some (Inl FatalExit)"
  by code_simp

lemma registry_chain_depends:
  "(''A'', ''B'') \<in> depends registry_chain" "(''B'', ''C'') \<in> depends registry_chain"
  unfolding depends_def registry_chain_def registry_of_def index_file_def recipe_from_def
  by auto

theorem dependency_order_topological_witness:
  "wf_registry registry_chain \<and> \<not> cyclic registry_chain
   \<and> dependency_order registry_chain = Some (Inr [''A'', ''B'', ''C''])
   \<and> precedes ''A'' ''B'' [''A'', ''B'', ''C'']
   \<and> precedes ''B'' ''C'' [''A'', ''B'', ''C'']
   \<and> wf_registry registry_cycle \<and> cyclic registry_cycle
   \<and> dependency_order registry_cycle = Some (Inl FatalExit)"
proof -
  note chain = dependency_order_topological [OF registry_chain_wf]
  note cycle = dependency_order_topological [OF registry_cycle_wf]
  from chain registry_chain_order have nc: "\<not> cyclic registry_chain" by auto
  with chain registry_chain_order
  have "\<forall>(x, y) \<in> depends registry_chain. precedes x y [''A'', ''B'', ''C'']" by auto
  with registry_chain_depends
  have "precedes ''A'' ''B'' [''A'', ''B'', ''C'']" "precedes ''B'' ''C'' [''A'', ''B'', ''C'']"
    by blast+
  moreover from cycle registry_cycle_order have "cyclic registry_cycle" by auto
  ultimately show ?thesis
    using nc registry_chain_wf registry_cycle_wf registry_chain_order registry_cycle_order
    by blast
qed

section \<open>What can be produced\<close>

text \<open>
  An index can be produced when it is finished already, or when some recipe of it has only
  inputs that can be produced.
\<close>

inductive producible :: "IndexRegistry \<Rightarrow> string \<Rightarrow> bool" for r :: IndexRegistry where
  producible_finished: "get_index r x = Inr f \<Longrightarrow> is_finished f \<Longrightarrow> producible r x"
| producible_recipe:
    "get_index r x = Inr f \<Longrightarrow> recipe \<in> set (get_recipes f)
       \<Longrightarrow> (\<forall>i \<in> set (inputs recipe). producible r i) \<Longrightarrow> producible r x"

text \<open>
  T is made from A and B. A and B are each made from C or else from P; C has no recipe and
  is not provided; P is provided.
\<close>

definition registry_siblings :: IndexRegistry where
  "registry_siblings = registry_of
     [index_file ''A'' [] False [recipe_from [''C''], recipe_from [''P'']],
      index_file ''B'' [] False [recipe_from [''C''], recipe_from [''P'']],
      index_file ''C'' [] False [],
      index_file ''P'' [''p.fasta''] True [],
      index_file ''T'' [] False [recipe_from [''A'', ''B'']]]"

text \<open>The same, but B can only be made from C.\<close>

definition registry_no_B :: IndexRegistry where
  "registry_no_B = registry_of
     [index_file ''A'' [] False [recipe_from [''C''], recipe_from [''P'']],
      index_file ''B'' [] False [recipe_from [''C'']],
      index_file ''C'' [] False [],
      index_file ''P'' [''p.fasta''] True [],
      index_file ''T'' [] False [recipe_from [''A'', ''B'']]]"

lemma registry_no_B_files:
  "get_index registry_no_B ''T'' = Inr f \<longleftrightarrow> f = index_file ''T'' [] False [recipe_from [''A'', ''B'']]"
  "get_index registry_no_B ''B'' = Inr f \<longleftrightarrow> f = index_file ''B'' [] False [recipe_from [''C'']]"
  "get_index registry_no_B ''C'' = Inr f \<longleftrightarrow> f = index_file ''C'' [] False []"
  by (auto simp: registry_no_B_def registry_of_def get_index_def index_file_def)

lemma registry_no_B_unproducible: "\<not> producible registry_no_B ''T''"
proof
  assume "producible registry_no_B ''T''"
  then have "producible registry_no_B ''B''"
    by (cases rule: producible.cases)
       (auto simp: registry_no_B_files index_file_def is_finished_def get_recipes_def
          recipe_from_def)
  then have "producible registry_no_B ''C''"
    by (cases rule: producible.cases)
       (auto simp: registry_no_B_files index_file_def is_finished_def get_recipes_def
          recipe_from_def)
  then show False
    by (cases rule: producible.cases)
       (auto simp: registry_no_B_files index_file_def is_finished_def get_recipes_def)
qed

lemma registry_no_B_plan:
  "make_plan registry_no_B [''T''] = Some (Inr [(''A'', 1), (''T'', 0)])"
  by code_simp

text \<open>
  C1 fails on the code: T cannot be produced (B needs C, which has no recipe and is not
  provided), and \<^verbatim>\<open>make_plan\<close> returns a plan for T instead of throwing
  \<^verbatim>\<open>InsufficientInputException\<close>. When C fails, the path is pruned back to A, the first
  requester of C; B, which T requested, is removed with it and never queued again.
\<close>

theorem plan_for_unproducible_target:
  "\<not> producible registry_no_B ''T''
   \<and> make_plan registry_no_B [''T''] = Some (Inr [(''A'', 1), (''T'', 0)])"
  using registry_no_B_unproducible registry_no_B_plan by simp

lemma registry_siblings_order:
  "dependency_order registry_siblings = Some (Inr [''P'', ''C'', ''B'', ''A'', ''T''])"
  by code_simp

lemma registry_siblings_path:
  "plan_product registry_siblings [''P'', ''C'', ''B'', ''A'', ''T''] ''T''
     = Some (Inr [(0, 3, 0), (3, 4, 1), (4, 5, 0)])"
  by code_simp

lemma registry_siblings_plan:
  "make_plan registry_siblings [''T''] = Some (Inr [(''A'', 1), (''T'', 0)])"
  by code_simp

lemma map_result_SomeInl:
  "map_option (map_sum id f) x = Some (Inl e) \<Longrightarrow> x = Some (Inl e)"
  by (cases x) (auto simp: map_sum_def split: sum.splits)

lemma registry_siblings_run:
  "make_indexes ''/tmp'' (\<lambda>x. x) registry_siblings [''T''] = Some (Inl AssertionFailure)"
proof (rule map_result_SomeInl)
  show "map_option (map_sum id snd) (make_indexes ''/tmp'' (\<lambda>x. x) registry_siblings [''T''])
          = Some (Inl AssertionFailure)"
    by code_simp
qed

text \<open>
  C3 fails on the code: the plan returned for T has no step for B, an input of the recipe
  selected for T, and \<^verbatim>\<open>make_indexes\<close> runs into the assertion of
  \<^verbatim>\<open>execute_recipe\<close> that every input is finished.
\<close>

theorem plan_execution_fails_assertion:
  "make_plan registry_siblings [''T''] = Some (Inr [(''A'', 1), (''T'', 0)])
   \<and> make_indexes ''/tmp'' (\<lambda>x. x) registry_siblings [''T''] = Some (Inl AssertionFailure)"
  using registry_siblings_plan registry_siblings_run by simp

text \<open>
  C4 fails on the code: B is an input of the recipe that the plan selects for T; B is not
  provided, not finished, and no step of the plan makes it.
\<close>

theorem plan_misses_input_of_selected_recipe:
  "make_plan registry_siblings [''T''] = Some (Inr [(''A'', 1), (''T'', 0)])
   \<and> get_index registry_siblings ''T'' = Inr (index_file ''T'' [] False [recipe_from [''A'', ''B'']])
   \<and> ''B'' \<in> set (inputs (recipe_from [''A'', ''B'']))
   \<and> get_index registry_siblings ''B''
        = Inr (index_file ''B'' [] False [recipe_from [''C''], recipe_from [''P'']])
   \<and> \<not> was_provided_directly (index_file ''B'' [] False [recipe_from [''C''], recipe_from [''P'']])
   \<and> ''B'' \<notin> fst ` set [(''A'', 1 :: nat), (''T'', 0)]"
  using registry_siblings_plan
  by (simp add: registry_siblings_def registry_of_def get_index_def index_file_def
        recipe_from_def was_provided_directly_def)

section \<open>The queue as a map\<close>

text \<open>The queue iterates from its greatest key: its keys are strictly descending.\<close>

definition queue_ok :: "queue \<Rightarrow> bool" where
  "queue_ok q = sorted_wrt (>) (map fst q)"

text \<open>
  Requesting and releasing a list of positions (the positions of the inputs of a recipe).
\<close>

fun request_positions :: "nat \<Rightarrow> nat list \<Rightarrow> queue \<Rightarrow> queue" where
  "request_positions k [] q = q"
| "request_positions k (d # ds) q =
     request_positions k ds
       (case map_of q d of
          None \<Rightarrow> queue_insert d (k, 1) q
        | Some (rq, c) \<Rightarrow> queue_assign d (rq, c + 1) q)"

fun release_positions :: "nat list \<Rightarrow> queue \<Rightarrow> queue" where
  "release_positions [] q = q"
| "release_positions (d # ds) q =
     release_positions ds
       (case map_of q d of
          None \<Rightarrow> q
        | Some (rq, c) \<Rightarrow>
            if size_t_dec c = 0 then queue_erase d q
            else queue_assign d (rq, size_t_dec c) q)"

lemma request_inputs_positions:
  "request_inputs ord k ins q = request_positions k (map (dep_order_of_identifier ord) ins) q"
  by (induction ins arbitrary: q) (simp_all add: Let_def)

lemma release_inputs_positions:
  "release_inputs ord ins q = release_positions (map (dep_order_of_identifier ord) ins) q"
  by (induction ins arbitrary: q) (simp_all add: Let_def)

lemma queue_ok_distinct: "queue_ok q \<Longrightarrow> distinct (map fst q)"
  unfolding queue_ok_def by (induction q) auto

lemma queue_insert_set: "set (queue_insert d v q) = insert (d, v) (set q)"
proof (induction q)
  case Nil
  then show ?case by simp
next
  case (Cons a q)
  obtain k' v' where "a = (k', v')" by (cases a)
  with Cons show ?case by (cases "k' < d") auto
qed

lemma queue_insert_keys: "set (map fst (queue_insert d v q)) = insert d (set (map fst q))"
  by (simp add: queue_insert_set)

lemma queue_insert_ok:
  "queue_ok q \<Longrightarrow> map_of q d = None \<Longrightarrow> queue_ok (queue_insert d v q)"
proof (induction q)
  case Nil
  then show ?case by (simp add: queue_ok_def)
next
  case (Cons a q)
  obtain k' v' where a: "a = (k', v')" by (cases a)
  from Cons.prems a have ne: "k' \<noteq> d" by (auto split: if_splits)
  from Cons.prems a have ok: "queue_ok q" and none: "map_of q d = None"
    and lt: "\<forall>x \<in> set (map fst q). x < k'"
    by (auto simp: queue_ok_def split: if_splits)
  show ?case
  proof (cases "k' < d")
    case True
    with Cons.prems a lt show ?thesis by (auto simp: queue_ok_def)
  next
    case False
    with ne have "d < k'" by simp
    with False a Cons.IH [OF ok none] lt show ?thesis
      using queue_insert_keys [of d v q] by (auto simp: queue_ok_def)
  qed
qed

lemma queue_insert_map:
  "map_of q d = None \<Longrightarrow> map_of (queue_insert d v q) = (map_of q)(d \<mapsto> v)"
  by (induction q) (auto simp: fun_eq_iff split: if_splits)

lemma queue_assign_keys: "map fst (queue_assign d v q) = map fst q"
  by (induction q) (auto simp: queue_assign_def)

lemma queue_assign_ok: "queue_ok (queue_assign d v q) = queue_ok q"
  by (simp add: queue_ok_def queue_assign_keys)

lemma queue_assign_map_of:
  "map_of (queue_assign d v q) x = (if x = d \<and> map_of q d \<noteq> None then Some v else map_of q x)"
  by (induction q) (auto simp: queue_assign_def)

lemma queue_assign_map:
  "map_of q d = Some w \<Longrightarrow> map_of (queue_assign d v q) = (map_of q)(d \<mapsto> v)"
  by (auto simp: queue_assign_map_of fun_eq_iff)

lemma queue_erase_ok: "queue_ok q \<Longrightarrow> queue_ok (queue_erase d q)"
  unfolding queue_ok_def queue_erase_def
  by (induction q) (auto simp: case_prod_unfold)

lemma queue_erase_map: "map_of (queue_erase d q) = (map_of q)(d := None)"
  by (induction q) (auto simp: queue_erase_def fun_eq_iff)


lemma request_positions_ok:
  "queue_ok q \<Longrightarrow> queue_ok (request_positions k ds q)"
proof (induction ds arbitrary: q)
  case Nil
  then show ?case by simp
next
  case (Cons d ds)
  have "queue_ok (case map_of q d of
          None \<Rightarrow> queue_insert d (k, 1) q
        | Some (rq, c) \<Rightarrow> queue_assign d (rq, c + 1) q)"
    using Cons.prems by (auto simp: queue_insert_ok queue_assign_ok split: option.splits)
  from Cons.IH [OF this] show ?case by simp
qed

lemma request_positions_map:
  "map_of (request_positions k ds q) d =
     (case map_of q d of
        None \<Rightarrow> if count_list ds d = 0 then None else Some (k, count_list ds d)
      | Some (rq, c) \<Rightarrow> Some (rq, c + count_list ds d))"
proof (induction ds arbitrary: q)
  case Nil
  then show ?case by (simp split: option.splits)
next
  case (Cons d0 ds)
  let ?q1 = "case map_of q d0 of
          None \<Rightarrow> queue_insert d0 (k, 1) q
        | Some (rq, c) \<Rightarrow> queue_assign d0 (rq, c + 1) q"
  have q1: "map_of ?q1 = (map_of q)(d0 \<mapsto>
      (case map_of q d0 of None \<Rightarrow> (k, 1) | Some (rq, c) \<Rightarrow> (rq, c + 1)))"
    by (auto simp: queue_insert_map queue_assign_map split: option.splits)
  have "map_of (request_positions k (d0 # ds) q) d = map_of (request_positions k ds ?q1) d"
    by simp
  also have "\<dots> = (case map_of ?q1 d of
        None \<Rightarrow> if count_list ds d = 0 then None else Some (k, count_list ds d)
      | Some (rq, c) \<Rightarrow> Some (rq, c + count_list ds d))"
    by (rule Cons.IH)
  also have "\<dots> = (case map_of q d of
        None \<Rightarrow> if count_list (d0 # ds) d = 0 then None else Some (k, count_list (d0 # ds) d)
      | Some (rq, c) \<Rightarrow> Some (rq, c + count_list (d0 # ds) d))"
    unfolding q1 by (cases "d = d0") (auto split: option.splits)
  finally show ?case .
qed

lemma size_t_dec_positive: "1 \<le> c \<Longrightarrow> size_t_dec c = c - 1"
  by (simp add: size_t_dec_def)

definition counts_positive :: "queue \<Rightarrow> bool" where
  "counts_positive q = (\<forall>d rq c. map_of q d = Some (rq, c) \<longrightarrow> 1 \<le> c)"

lemma release_positions_props:
  "queue_ok q \<Longrightarrow> counts_positive q \<Longrightarrow>
     queue_ok (release_positions ds q) \<and>
     (\<forall>d. map_of (release_positions ds q) d =
        (case map_of q d of
           None \<Rightarrow> None
         | Some (rq, c) \<Rightarrow> if count_list ds d < c then Some (rq, c - count_list ds d) else None))"
proof (induction ds arbitrary: q)
  case Nil
  then show ?case by (auto simp: counts_positive_def split: option.splits)
next
  case (Cons d0 ds)
  let ?q1 = "case map_of q d0 of
          None \<Rightarrow> q
        | Some (rq, c) \<Rightarrow>
            if size_t_dec c = 0 then queue_erase d0 q
            else queue_assign d0 (rq, size_t_dec c) q"
  have ok1: "queue_ok ?q1"
    using Cons.prems(1) by (auto simp: queue_erase_ok queue_assign_ok split: option.splits)
  have q1: "map_of ?q1 d =
      (if d = d0 then (case map_of q d0 of None \<Rightarrow> None
                       | Some (rq, c) \<Rightarrow> if c = 1 then None else Some (rq, c - 1))
       else map_of q d)" for d
  proof (cases "map_of q d0")
    case None
    then show ?thesis by simp
  next
    case (Some v)
    obtain rq c where v: "v = (rq, c)" by (cases v)
    with Some Cons.prems(2) have c: "1 \<le> c" by (auto simp: counts_positive_def)
    then have dec: "size_t_dec c = c - 1" by (rule size_t_dec_positive)
    show ?thesis
    proof (cases "c = 1")
      case True
      with Some v dec show ?thesis by (simp add: queue_erase_map)
    next
      case False
      with c have "c - 1 \<noteq> 0" by simp
      with Some v dec False show ?thesis by (simp add: queue_assign_map_of)
    qed
  qed
  have pos1: "counts_positive ?q1"
    unfolding counts_positive_def
  proof (intro allI impI)
    fix d rq c assume a: "map_of ?q1 d = Some (rq, c)"
    show "1 \<le> c"
    proof (cases "d = d0")
      case True
      with a obtain c0 where c0: "map_of q d0 = Some (rq, c0)" "c0 \<noteq> 1" "c = c0 - 1"
        unfolding q1 by (auto split: if_splits option.splits)
      from c0(1) Cons.prems(2) have "1 \<le> c0" unfolding counts_positive_def by blast
      with c0 show ?thesis by simp
    next
      case False
      with a have "map_of q d = Some (rq, c)" unfolding q1 by simp
      with Cons.prems(2) show ?thesis unfolding counts_positive_def by blast
    qed
  qed
  from Cons.IH [OF ok1 pos1] have ok: "queue_ok (release_positions ds ?q1)"
    and m: "\<And>d. map_of (release_positions ds ?q1) d =
        (case map_of ?q1 d of
           None \<Rightarrow> None
         | Some (rq, c) \<Rightarrow> if count_list ds d < c then Some (rq, c - count_list ds d) else None)"
    by blast+
  have "map_of (release_positions (d0 # ds) q) d =
        (case map_of q d of
           None \<Rightarrow> None
         | Some (rq, c) \<Rightarrow>
             if count_list (d0 # ds) d < c then Some (rq, c - count_list (d0 # ds) d) else None)"
    for d
  proof -
    have "map_of (release_positions (d0 # ds) q) d = map_of (release_positions ds ?q1) d"
      by simp
    also note m [of d]
    also have "(case map_of ?q1 d of
           None \<Rightarrow> None
         | Some (rq, c) \<Rightarrow> if count_list ds d < c then Some (rq, c - count_list ds d) else None)
       = (case map_of q d of
           None \<Rightarrow> None
         | Some (rq, c) \<Rightarrow>
             if count_list (d0 # ds) d < c then Some (rq, c - count_list (d0 # ds) d) else None)"
      unfolding q1 using Cons.prems(2)
      by (cases "d = d0") (auto simp: counts_positive_def split: option.splits)
    finally show ?thesis .
  qed
  with ok show ?case by simp
qed

lemma queue_head:
  assumes "queue_ok ((k, v) # q)"
  shows "queue_ok q" and "\<forall>d \<in> fst ` set q. d < k"
    and "map_of q d = (if d = k then None else map_of ((k, v) # q) d)"
proof -
  from assms show ok: "queue_ok q" and lt: "\<forall>d \<in> fst ` set q. d < k"
    by (auto simp: queue_ok_def)
  from lt have "k \<notin> fst ` set q" by auto
  then have "map_of q k = None" by (simp add: map_of_eq_None_iff)
  then show "map_of q d = (if d = k then None else map_of ((k, v) # q) d)" by simp
qed

lemma map_of_key: "map_of q d = Some v \<Longrightarrow> d \<in> fst ` set q"
  by (metis domI dom_map_of_conv_image_fst)

section \<open>The invariant of the planner's loop\<close>

text \<open>
  What the planner relies on: a well-formed registry and a dependency order of its
  identifiers in which the inputs of every recipe precede its output.
\<close>

definition planning_context :: "IndexRegistry \<Rightarrow> string list \<Rightarrow> bool" where
  "planning_context r ord =
     (wf_registry r \<and> distinct ord \<and> set ord = set (graph_label r)
      \<and> (\<forall>(x, y) \<in> depends r. precedes x y ord))"

lemma planning_context_dependency_order:
  "wf_registry r \<Longrightarrow> dependency_order r = Some (Inr ord) \<Longrightarrow> planning_context r ord"
  using dependency_order_sound [of r ord] by (simp add: planning_context_def)

lemma context_index_at:
  assumes "planning_context r ord" and "k < length ord"
  shows "\<exists>f. index_at r ord k = Inr f"
proof -
  from assms have "ord ! k \<in> fst ` set (registry r)"
    by (metis graph_label_def nth_mem planning_context_def set_map)
  then obtain f where "map_of (registry r) (ord ! k) = Some f"
    by (metis map_of_eq_None_iff not_Some_eq)
  with assms(2) show ?thesis by (simp add: index_at_def get_index_def)
qed

lemma index_at_Inr:
  "index_at r ord k = Inr f \<Longrightarrow> k < length ord \<and> (ord ! k, f) \<in> set (registry r)"
  by (auto simp: index_at_def dest: get_index_in_registry split: if_splits)

lemma precedes_nth:
  assumes "distinct xs" and "precedes x (xs ! k) xs" and "k < length xs"
  shows "\<exists>i < k. xs ! i = x"
proof -
  from assms(2) obtain i j where ij: "i < j" "j < length xs" "xs ! i = x" "xs ! j = xs ! k"
    unfolding precedes_def by blast
  with assms(1,3) have "j = k" by (simp add: nth_eq_iff_index_eq)
  with ij show ?thesis by blast
qed

lemma context_input:
  assumes ctx: "planning_context r ord" and f: "index_at r ord k = Inr f"
    and rc: "recipe \<in> set (get_recipes f)" and x: "x \<in> set (inputs recipe)"
  shows "dep_order_of_identifier ord x < k \<and> ord ! dep_order_of_identifier ord x = x"
proof -
  from index_at_Inr [OF f] have k: "k < length ord" and mem: "(ord ! k, f) \<in> set (registry r)"
    by auto
  from mem rc x have "(x, ord ! k) \<in> depends r"
    unfolding depends_def get_recipes_def by blast
  with ctx have "precedes x (ord ! k) ord" unfolding planning_context_def by blast
  with ctx k obtain i where i: "i < k" "ord ! i = x"
    using precedes_nth [of ord x k] unfolding planning_context_def by blast
  with ctx k have "dep_order_of_identifier ord x = i"
    unfolding dep_order_of_identifier_def planning_context_def
    using at_default_index_map_nth [of ord i] by auto
  with i show ?thesis by simp
qed

text \<open>The positions that an entry of the path is requesting: the inputs of its recipe.\<close>

definition requests :: "IndexRegistry \<Rightarrow> string list \<Rightarrow> nat \<times> nat \<times> nat \<Rightarrow> nat list" where
  "requests r ord = (\<lambda>(k, rq, i).
     case index_at r ord k of
       Inl e \<Rightarrow> []
     | Inr f \<Rightarrow>
         if \<not> is_finished f \<and> i < length (get_recipes f)
         then map (dep_order_of_identifier ord) (inputs (get_recipes f ! i))
         else [])"

lemma release_entry_requests:
  "release_entry r ord e q = Inr q' \<Longrightarrow> q' = release_positions (requests r ord e) q"
  by (cases e)
     (auto simp: release_entry_def requests_def release_inputs_positions
           split: sum.splits if_splits)

lemma requests_input:
  assumes ctx: "planning_context r ord" and d: "d \<in> set (requests r ord (k, rq, i))"
  shows "\<exists>f. index_at r ord k = Inr f \<and> \<not> is_finished f \<and> i < length (get_recipes f)
           \<and> ord ! d \<in> set (inputs (get_recipes f ! i)) \<and> d < k"
proof -
  from d obtain f where f1: "index_at r ord k = Inr f"
    by (cases "index_at r ord k") (auto simp: requests_def)
  with d have f: "index_at r ord k = Inr f" "\<not> is_finished f"
    "i < length (get_recipes f)"
    and "d \<in> set (map (dep_order_of_identifier ord) (inputs (get_recipes f ! i)))"
    by (auto simp: requests_def split: if_splits)
  then obtain x where x: "x \<in> set (inputs (get_recipes f ! i))"
    "d = dep_order_of_identifier ord x" by auto
  from f(3) have "get_recipes f ! i \<in> set (get_recipes f)" by simp
  from context_input [OF ctx f(1) this x(1)] x f show ?thesis by auto
qed

text \<open>Recipe \<open>j\<close> of an index cannot be used: one of its inputs cannot be produced.\<close>

definition rejected :: "IndexRegistry \<Rightarrow> IndexFile \<Rightarrow> nat \<Rightarrow> bool" where
  "rejected r f j = (\<exists>x \<in> set (inputs (get_recipes f ! j)). \<not> producible r x)"

definition entry_ok :: "IndexRegistry \<Rightarrow> string list \<Rightarrow> nat \<times> nat \<times> nat \<Rightarrow> bool" where
  "entry_ok r ord = (\<lambda>(k, rq, i).
     k < length ord \<and>
     (\<forall>f. index_at r ord k = Inr f \<longrightarrow>
        i \<le> length (get_recipes f) \<and>
        (\<not> is_finished f \<longrightarrow> (\<forall>j < i. j < length (get_recipes f) \<longrightarrow> rejected r f j))))"

definition requested_by ::
  "IndexRegistry \<Rightarrow> string list \<Rightarrow> nat \<Rightarrow> nat \<Rightarrow> plan_path \<Rightarrow> bool" where
  "requested_by r ord d rq path = (\<exists>e \<in> set path. fst e = rq \<and> d \<in> set (requests r ord e))"

fun path_ok :: "IndexRegistry \<Rightarrow> string list \<Rightarrow> plan_path \<Rightarrow> bool" where
  "path_ok r ord [] = True"
| "path_ok r ord (e # rest) =
     (entry_ok r ord e \<and> (\<forall>e' \<in> set rest. fst e < fst e') \<and>
      (if rest = [] then fst (snd e) = length ord
       else requested_by r ord (fst e) (fst (snd e)) rest) \<and>
      path_ok r ord rest)"

text \<open>
  How many requests for position \<open>d\<close> the entries of the path down to the entry of
  \<open>rq\<close> are making.
\<close>

fun request_bound ::
  "IndexRegistry \<Rightarrow> string list \<Rightarrow> nat \<Rightarrow> nat \<Rightarrow> plan_path \<Rightarrow> nat option" where
  "request_bound r ord d rq [] = None"
| "request_bound r ord d rq (e # rest) =
     (if fst e = rq then Some (count_list (requests r ord e) d)
      else map_option (\<lambda>b. count_list (requests r ord e) d + b) (request_bound r ord d rq rest))"

definition queue_inv :: "IndexRegistry \<Rightarrow> string list \<Rightarrow> plan_path \<Rightarrow> queue \<Rightarrow> bool" where
  "queue_inv r ord path q =
     (queue_ok q \<and>
      (\<forall>d rq c. map_of q d = Some (rq, c) \<longrightarrow>
         1 \<le> c \<and> (\<forall>e \<in> set path. d < fst e) \<and> requested_by r ord d rq path \<and>
         (\<exists>b. request_bound r ord d rq path = Some b \<and> c \<le> b)))"

text \<open>
  \<open>settled\<close>: between two steps of the planner. \<open>unexpanded\<close>: the back of the path has
  no request of its own in the queue yet.
\<close>

definition settled :: "IndexRegistry \<Rightarrow> string list \<Rightarrow> nat \<Rightarrow> plan_path \<Rightarrow> queue \<Rightarrow> bool" where
  "settled r ord target path q =
     (path = [] \<and> q = [] \<or>
      path \<noteq> [] \<and> path_ok r ord path \<and> fst (last path) = target \<and> queue_inv r ord path q)"

definition unexpanded :: "IndexRegistry \<Rightarrow> string list \<Rightarrow> nat \<Rightarrow> plan_path \<Rightarrow> queue \<Rightarrow> bool" where
  "unexpanded r ord target path q =
     (path = [] \<and> q = [] \<or>
      path \<noteq> [] \<and> path_ok r ord path \<and> fst (last path) = target \<and> queue_ok q \<and>
      (\<forall>d \<in> fst ` set q. d < fst (hd path)) \<and>
      (tl path = [] \<longrightarrow> q = []) \<and> (tl path \<noteq> [] \<longrightarrow> queue_inv r ord (tl path) q))"

definition plan_inv :: "IndexRegistry \<Rightarrow> string list \<Rightarrow> nat \<Rightarrow> plan_state \<Rightarrow> bool" where
  "plan_inv r ord target = (\<lambda>(path, q).
     path = [] \<and> q = [(target, length ord, 1)] \<or> settled r ord target path q)"

lemma count_list_positive: "0 < count_list xs x \<longleftrightarrow> x \<in> set xs"
  by (induction xs) auto

lemma unexpanded_settled:
  assumes "unexpanded r ord target path q"
  shows "settled r ord target path q"
proof (cases path)
  case Nil
  with assms show ?thesis by (simp add: unexpanded_def settled_def)
next
  case (Cons top rest)
  with assms have ok: "path_ok r ord (top # rest)" and last: "fst (last path) = target"
    and qok: "queue_ok q" and lt: "\<forall>d \<in> fst ` set q. d < fst top"
    and e: "rest = [] \<longrightarrow> q = []" and i: "rest \<noteq> [] \<longrightarrow> queue_inv r ord rest q"
    by (auto simp: unexpanded_def)
  have "queue_inv r ord (top # rest) q"
  proof (cases "rest = []")
    case True
    with e show ?thesis by (simp add: queue_inv_def queue_ok_def)
  next
    case False
    with i have qi: "queue_inv r ord rest q" by simp
    show ?thesis
      unfolding queue_inv_def
    proof (intro conjI allI impI)
      show "queue_ok q" by (rule qok)
      fix d rq c assume m: "map_of q d = Some (rq, c)"
      with qi have c: "1 \<le> c" and lt': "\<forall>e \<in> set rest. d < fst e"
        and rb: "requested_by r ord d rq rest"
        and b: "\<exists>b. request_bound r ord d rq rest = Some b \<and> c \<le> b"
        unfolding queue_inv_def by blast+
      show "1 \<le> c" by (rule c)
      from m lt have "d < fst top" using map_of_key by fastforce
      with lt' show "\<forall>e \<in> set (top # rest). d < fst e" by simp
      from rb show "requested_by r ord d rq (top # rest)"
        by (auto simp: requested_by_def)
      from rb obtain e where "e \<in> set rest" "fst e = rq" unfolding requested_by_def by blast
      with ok have "fst top \<noteq> rq" by auto
      with b show "\<exists>b. request_bound r ord d rq (top # rest) = Some b \<and> c \<le> b"
        by auto
    qed
  qed
  with ok last Cons show ?thesis by (simp add: settled_def)
qed

lemma queue_inv_positive: "queue_inv r ord path q \<Longrightarrow> counts_positive q"
  unfolding queue_inv_def counts_positive_def by blast

lemma queue_empty_map: "(\<forall>d. map_of q d = None) \<Longrightarrow> q = []"
  by (cases q) (auto split: if_splits)

text \<open>Removing the back of the path and withdrawing its requests.\<close>

lemma pop_settled:
  assumes s: "settled r ord target (e # path) q" and rel: "release_entry r ord e q = Inr q'"
  shows "settled r ord target path q'"
proof -
  let ?m = "\<lambda>d. count_list (requests r ord e) d"
  from s have ok: "path_ok r ord (e # path)" and last: "fst (last (e # path)) = target"
    and qi: "queue_inv r ord (e # path) q"
    by (auto simp: settled_def)
  from qi have qok: "queue_ok q" by (simp add: queue_inv_def)
  from release_entry_requests [OF rel]
    release_positions_props [OF qok queue_inv_positive [OF qi], of "requests r ord e"]
  have qok': "queue_ok q'"
    and m: "\<And>d. map_of q' d =
        (case map_of q d of
           None \<Rightarrow> None
         | Some (rq, c) \<Rightarrow> if ?m d < c then Some (rq, c - ?m d) else None)"
    by auto
  have old: "\<exists>c. map_of q d = Some (rq, c) \<and> ?m d < c \<and> c' = c - ?m d"
    if "map_of q' d = Some (rq, c')" for d rq c'
    using that unfolding m by (auto split: option.splits if_splits)
  have below: "fst e \<noteq> rq \<and> requested_by r ord d rq path
      \<and> (\<exists>b. request_bound r ord d rq path = Some b \<and> c - ?m d \<le> b)"
    if q: "map_of q d = Some (rq, c)" and lt: "?m d < c" for d rq c
  proof -
    from qi q have rb: "requested_by r ord d rq (e # path)"
      and b: "\<exists>b. request_bound r ord d rq (e # path) = Some b \<and> c \<le> b"
      unfolding queue_inv_def by blast+
    have ne: "fst e \<noteq> rq"
    proof
      assume "fst e = rq"
      with b have "c \<le> ?m d" by simp
      with lt show False by simp
    qed
    with rb have "requested_by r ord d rq path" by (auto simp: requested_by_def)
    moreover from b ne have "\<exists>b. request_bound r ord d rq path = Some b \<and> c - ?m d \<le> b"
      by auto
    ultimately show ?thesis using ne by simp
  qed
  show ?thesis
  proof (cases "path = []")
    case True
    have "map_of q' d = None" for d
    proof (rule ccontr)
      assume "map_of q' d \<noteq> None"
      then obtain rq c' where "map_of q' d = Some (rq, c')" by auto
      from old [OF this] obtain c where "map_of q d = Some (rq, c)" "?m d < c" by blast
      from below [OF this] True show False by (simp add: requested_by_def)
    qed
    then have "q' = []" by (intro queue_empty_map) simp
    with True show ?thesis by (simp add: settled_def)
  next
    case False
    have "queue_inv r ord path q'"
      unfolding queue_inv_def
    proof (intro conjI allI impI)
      show "queue_ok q'" by (rule qok')
      fix d rq c' assume "map_of q' d = Some (rq, c')"
      from old [OF this] obtain c where c: "map_of q d = Some (rq, c)" "?m d < c" "c' = c - ?m d"
        by blast
      from c show "1 \<le> c'" by simp
      from qi c(1) show "\<forall>e \<in> set path. d < fst e" unfolding queue_inv_def by fastforce
      from below [OF c(1,2)] c(3) show "requested_by r ord d rq path"
        and "\<exists>b. request_bound r ord d rq path = Some b \<and> c' \<le> b" by simp_all
    qed
    with ok last False show ?thesis by (simp add: settled_def)
  qed
qed

lemma prune_path_settled:
  assumes "settled r ord target path q" and "prune_path r ord rq path q = Inr (path', q')"
  shows "settled r ord target path' q'
       \<and> (\<exists>pre. path = pre @ path' \<and> (\<forall>e \<in> set pre. fst e \<noteq> rq))
       \<and> (path' \<noteq> [] \<longrightarrow> fst (hd path') = rq)"
  using assms
proof (induction path arbitrary: q)
  case Nil
  then show ?case by simp
next
  case (Cons e path)
  show ?case
  proof (cases "fst e = rq")
    case True
    with Cons.prems show ?thesis by auto
  next
    case False
    with Cons.prems(2) obtain q1 where q1: "release_entry r ord e q = Inr q1"
      and rest: "prune_path r ord rq path q1 = Inr (path', q')"
      by (auto split: sum.splits)
    from Cons.IH [OF pop_settled [OF Cons.prems(1) q1] rest]
    obtain pre where "settled r ord target path' q'" "path = pre @ path'"
      "\<forall>e \<in> set pre. fst e \<noteq> rq" "path' \<noteq> [] \<longrightarrow> fst (hd path') = rq"
      by blast
    with False have "e # path = (e # pre) @ path'" "\<forall>e' \<in> set (e # pre). fst e' \<noteq> rq"
      by auto
    with \<open>settled r ord target path' q'\<close> \<open>path' \<noteq> [] \<longrightarrow> fst (hd path') = rq\<close>
    show ?thesis by blast
  qed
qed

lemma path_ok_entries: "path_ok r ord path \<Longrightarrow> e \<in> set path \<Longrightarrow> entry_ok r ord e"
  by (induction path) auto

lemma path_ok_suffix: "path_ok r ord (pre @ path) \<Longrightarrow> path_ok r ord path"
  by (induction pre) auto

lemma path_ok_keys:
  "path_ok r ord path \<Longrightarrow> e \<in> set path \<Longrightarrow> e' \<in> set path \<Longrightarrow> fst e = fst e' \<Longrightarrow> e = e'"
proof (induction path)
  case Nil
  then show ?case by simp
next
  case (Cons a path)
  then show ?case by (cases "e = a"; cases "e' = a") auto
qed

lemma queue_keys: "d \<in> fst ` set q \<longleftrightarrow> map_of q d \<noteq> None"
  by (simp add: map_of_eq_None_iff)

text \<open>Advancing the back of the path to its next recipe.\<close>

lemma advance_unexpanded:
  assumes s: "settled r ord target ((k, rq, i) # rest) q"
    and rel: "release_entry r ord (k, rq, i) q = Inr q'"
    and e: "entry_ok r ord (k, rq, Suc i)"
  shows "unexpanded r ord target ((k, rq, Suc i) # rest) q'"
proof -
  from s have ok: "path_ok r ord ((k, rq, i) # rest)"
    and last: "fst (last ((k, rq, i) # rest)) = target"
    and qi: "queue_inv r ord ((k, rq, i) # rest) q"
    by (auto simp: settled_def)
  from pop_settled [OF s rel] have rest: "settled r ord target rest q'" .
  from ok e have ok': "path_ok r ord ((k, rq, Suc i) # rest)" by (auto split: if_splits)
  from last have last': "fst (last ((k, rq, Suc i) # rest)) = target"
    by (auto split: if_splits)
  from qi have qok: "queue_ok q" by (simp add: queue_inv_def)
  from release_entry_requests [OF rel]
    release_positions_props [OF qok queue_inv_positive [OF qi], of "requests r ord (k, rq, i)"]
  have qok': "queue_ok q'"
    and sub: "\<And>d. map_of q' d \<noteq> None \<Longrightarrow> map_of q d \<noteq> None"
    by (auto split: option.splits)
  have lt: "\<forall>d \<in> fst ` set q'. d < k"
  proof
    fix d assume "d \<in> fst ` set q'"
    then have "map_of q d \<noteq> None" using sub by (simp add: queue_keys)
    then obtain v c where "map_of q d = Some (v, c)" by auto
    with qi show "d < k" unfolding queue_inv_def by fastforce
  qed
  from rest have "rest = [] \<longrightarrow> q' = []" "rest \<noteq> [] \<longrightarrow> queue_inv r ord rest q'"
    by (auto simp: settled_def)
  with ok' last' qok' lt show ?thesis
    by (simp add: unexpanded_def del: path_ok.simps last.simps)
qed

text \<open>Queueing the requests of the back of the path.\<close>

lemma expand_settled:
  assumes ctx: "planning_context r ord"
    and u: "unexpanded r ord target (back # rest) q"
  shows "settled r ord target (back # rest) (request_positions (fst back) (requests r ord back) q)"
proof -
  let ?ds = "requests r ord back"
  let ?q = "request_positions (fst back) ?ds q"
  from u have ok: "path_ok r ord (back # rest)"
    and last: "fst (last (back # rest)) = target"
    and qok: "queue_ok q" and lt: "\<forall>d \<in> fst ` set q. d < fst back"
    and e: "rest = [] \<longrightarrow> q = []" and i: "rest \<noteq> [] \<longrightarrow> queue_inv r ord rest q"
    by (auto simp: unexpanded_def)
  have ds: "d < fst back" if "d \<in> set ?ds" for d
    using requests_input [OF ctx, of d "fst back" "fst (snd back)" "snd (snd back)"] that by auto
  have "queue_inv r ord (back # rest) ?q"
    unfolding queue_inv_def
  proof (rule conjI, rule request_positions_ok [OF qok], intro allI impI)
    fix d rq c assume m: "map_of ?q d = Some (rq, c)"
    show "1 \<le> c \<and> (\<forall>e \<in> set (back # rest). d < fst e) \<and> requested_by r ord d rq (back # rest)
        \<and> (\<exists>b. request_bound r ord d rq (back # rest) = Some b \<and> c \<le> b)"
    proof (cases "map_of q d")
      case None
      with m have c: "count_list ?ds d \<noteq> 0" "rq = fst back" "c = count_list ?ds d"
        unfolding request_positions_map by (auto split: if_splits)
      then have mem: "d \<in> set ?ds" using count_list_positive [of ?ds d] by simp
      from ds [OF mem] ok have "\<forall>e \<in> set (back # rest). d < fst e" by fastforce
      moreover from mem c have "requested_by r ord d rq (back # rest)"
        by (simp add: requested_by_def)
      ultimately show ?thesis using c by simp
    next
      case (Some v)
      obtain rq0 c0 where v: "v = (rq0, c0)" by (cases v)
      with Some m have c: "rq = rq0" "c = c0 + count_list ?ds d"
        unfolding request_positions_map by auto
      from Some e have ne: "rest \<noteq> []" by auto
      with i have qi: "queue_inv r ord rest q" by simp
      with Some v c have c0: "1 \<le> c0" and lt': "\<forall>e \<in> set rest. d < fst e"
        and rb: "requested_by r ord d rq rest"
        and b: "\<exists>b. request_bound r ord d rq rest = Some b \<and> c0 \<le> b"
        unfolding queue_inv_def by blast+
      from Some lt have "d < fst back" using map_of_key by fastforce
      with lt' have "\<forall>e \<in> set (back # rest). d < fst e" by simp
      moreover from rb have "requested_by r ord d rq (back # rest)"
        by (auto simp: requested_by_def)
      moreover from rb obtain e' where "e' \<in> set rest" "fst e' = rq"
        unfolding requested_by_def by blast
      with ok have "fst back \<noteq> rq" by auto
      with b c have "\<exists>b. request_bound r ord d rq (back # rest) = Some b \<and> c \<le> b" by auto
      ultimately show ?thesis using c0 c by simp
    qed
  qed
  with ok last show ?thesis by (simp add: settled_def)
qed

lemma index_at_unique: "index_at r ord k = Inr f \<Longrightarrow> index_at r ord k = Inr f' \<Longrightarrow> f = f'"
  by simp

lemma unproducible_exhausted:
  assumes f: "index_at r ord k = Inr f" and nf: "\<not> is_finished f"
    and rej: "\<forall>j < length (get_recipes f). rejected r f j"
  shows "\<not> producible r (ord ! k)"
proof
  assume "producible r (ord ! k)"
  then show False
  proof (cases rule: producible.cases)
    case (producible_finished f')
    with f nf show False by (auto simp: index_at_def split: if_splits)
  next
    case (producible_recipe f' recipe)
    with f have "f' = f" by (auto simp: index_at_def split: if_splits)
    with producible_recipe obtain j where "j < length (get_recipes f)" "get_recipes f ! j = recipe"
      by (auto simp: in_set_conv_nth)
    with rej producible_recipe(3) show False by (auto simp: rejected_def)
  qed
qed

definition back_unfinished :: "IndexRegistry \<Rightarrow> string list \<Rightarrow> plan_path \<Rightarrow> bool" where
  "back_unfinished r ord path =
     (path \<noteq> [] \<longrightarrow> (\<exists>f. index_at r ord (fst (hd path)) = Inr f \<and> \<not> is_finished f))"

definition back_unproducible :: "IndexRegistry \<Rightarrow> string list \<Rightarrow> plan_path \<Rightarrow> bool" where
  "back_unproducible r ord path =
     (exhausted r ord path = Inr True \<longrightarrow> \<not> producible r (ord ! fst (hd path)))"

lemma exhausted_True:
  assumes "exhausted r ord path = Inr True"
  obtains k rq i rest f where "path = (k, rq, i) # rest" "index_at r ord k = Inr f"
    "i = length (get_recipes f)"
  using assms unfolding exhausted_def
  by (auto split: list.splits sum.splits)

lemma backtrack_Nil: "backtrack r ord [] q = Inr ([], q)"
  by (subst backtrack.simps) (simp add: exhausted_def)

lemma backtrack_not_exhausted:
  "exhausted r ord path = Inr False \<Longrightarrow> backtrack r ord path q = Inr (path, q)"
  by (subst backtrack.simps) simp

lemma backtrack_exhausted:
  "exhausted r ord ((k, rq, i) # rest) = Inr True \<Longrightarrow>
     backtrack r ord ((k, rq, i) # rest) q =
       (case prune_path r ord rq ((k, rq, i) # rest) q of
          Inl e \<Rightarrow> Inl e
        | Inr ([], q') \<Rightarrow> Inr ([], q')
        | Inr ((k', rq', i') # path', q') \<Rightarrow>
            (case release_entry r ord (k', rq', i') q' of
               Inl e \<Rightarrow> Inl e
             | Inr q'' \<Rightarrow> backtrack r ord ((k', rq', i' + 1) # path') q''))"
  by (subst backtrack.simps)
     (simp add: backtrack_Nil split: sum.splits list.splits prod.splits del: prune_path.simps)

lemma release_entry_total:
  assumes "planning_context r ord" and "fst e < length ord"
  shows "\<exists>q'. release_entry r ord e q = Inr q'"
proof -
  from context_index_at [OF assms] obtain f where "index_at r ord (fst e) = Inr f" by blast
  then show ?thesis by (cases e) (simp add: release_entry_def)
qed

lemma prune_path_total:
  assumes ctx: "planning_context r ord"
  shows "\<forall>e \<in> set path. fst e < length ord \<Longrightarrow> \<exists>path' q'. prune_path r ord rq path q = Inr (path', q')"
proof (induction path arbitrary: q)
  case Nil
  then show ?case by simp
next
  case (Cons e path)
  show ?case
  proof (cases "fst e = rq")
    case True
    then show ?thesis by simp
  next
    case False
    from Cons.prems have "fst e < length ord" by simp
    from release_entry_total [OF ctx this, of q] obtain q1 where
      "release_entry r ord e q = Inr q1" by blast
    moreover from Cons.IH [of q1] Cons.prems obtain path' q' where
      "prune_path r ord rq path q1 = Inr (path', q')" by auto
    ultimately show ?thesis using False by simp
  qed
qed

lemma path_ok_bound: "path_ok r ord path \<Longrightarrow> e \<in> set path \<Longrightarrow> fst e < length ord"
  using path_ok_entries [of r ord path e] by (cases e) (simp add: entry_ok_def)

lemma exhausted_total:
  assumes "planning_context r ord" and "path_ok r ord path"
  shows "\<exists>b. exhausted r ord path = Inr b"
proof (cases path)
  case Nil
  then show ?thesis by (auto simp: exhausted_def)
next
  case (Cons e rest)
  with path_ok_bound [OF assms(2), of e] have "fst e < length ord" by simp
  from context_index_at [OF assms(1) this] Cons show ?thesis
    by (cases e) (auto simp: exhausted_def)
qed

text \<open>
  The backtracking loop: when it starts from a back that cannot be produced, it ends
  without a failed lookup, and every recipe it leaves behind has an input that cannot be
  produced.
\<close>

lemma backtrack_unexpanded:
  assumes ctx: "planning_context r ord"
  shows "unexpanded r ord target path q \<Longrightarrow> back_unfinished r ord path
     \<Longrightarrow> back_unproducible r ord path
     \<Longrightarrow> \<exists>path' q'. backtrack r ord path q = Inr (path', q')
           \<and> unexpanded r ord target path' q' \<and> back_unfinished r ord path'
           \<and> exhausted r ord path' = Inr False
           \<and> (path' = path \<or> path' = [] \<or>
               (\<exists>pre k rq i rest. path = pre @ (k, rq, i) # rest \<and> pre \<noteq> []
                   \<and> path' = (k, rq, Suc i) # rest))"
proof (induction "length path" arbitrary: path q rule: less_induct)
  case less
  note u = less.prems(1) and unf = less.prems(2) and unp = less.prems(3)
  from unexpanded_settled [OF u] have s: "settled r ord target path q" .
  then have ok: "path_ok r ord path" by (auto simp: settled_def)
  from exhausted_total [OF ctx ok] obtain ex where ex0: "exhausted r ord path = Inr ex" by blast
  show ?case
  proof (cases ex)
    case False
    with ex0 u unf show ?thesis by (simp add: backtrack_not_exhausted)
  next
    case True
    with ex0 have ex: "exhausted r ord path = Inr True" by simp
    then obtain k rq i rest f where path: "path = (k, rq, i) # rest"
      and f: "index_at r ord k = Inr f" and i: "i = length (get_recipes f)"
      by (rule exhausted_True)
    from unp ex path have unprod: "\<not> producible r (ord ! k)"
      by (simp add: back_unproducible_def)
    note eq = backtrack_exhausted [OF ex [unfolded path], of q, folded path]
    from prune_path_total [OF ctx, of path rq q] path_ok_bound [OF ok]
    obtain p1 q1 where pr: "prune_path r ord rq path q = Inr (p1, q1)" by blast
    from prune_path_settled [OF s pr] obtain pre where
      s1: "settled r ord target p1 q1" and pre: "path = pre @ p1"
      "\<forall>e \<in> set pre. fst e \<noteq> rq" and hd: "p1 \<noteq> [] \<longrightarrow> fst (hd p1) = rq"
      by blast
    show ?thesis
    proof (cases p1)
      case Nil
      with eq pr have "backtrack r ord path q = Inr ([], q1)" by simp
      moreover from s1 Nil have "q1 = []" by (simp add: settled_def)
      ultimately show ?thesis
        by (simp add: unexpanded_def back_unfinished_def exhausted_def)
    next
      case (Cons e1 rest1)
      obtain k2 rq2 i2 where e1: "e1 = (k2, rq2, i2)" by (cases e1)
      with Cons hd have k2: "k2 = rq" by simp
      from pre Cons e1 have mem: "(k2, rq2, i2) \<in> set path" by simp
      from path_ok_entries [OF ok mem] have e_ok: "entry_ok r ord (k2, rq2, i2)" .
      then have k2_lt: "k2 < length ord" by (simp add: entry_ok_def)
      with ok path k2 have ne: "rest \<noteq> []" and rb: "requested_by r ord k rq rest"
        by (auto split: if_splits)
      from rb obtain e where e: "e \<in> set rest" "fst e = rq" "k \<in> set (requests r ord e)"
        unfolding requested_by_def by blast
      with path have "e \<in> set path" by simp
      from path_ok_keys [OF ok this mem] e(2) k2 have "e = (k2, rq2, i2)" by simp
      with e have "k \<in> set (requests r ord (k2, rq2, i2))" by simp
      from requests_input [OF ctx this] obtain f2 where
        f2: "index_at r ord k2 = Inr f2" "\<not> is_finished f2" "i2 < length (get_recipes f2)"
        "ord ! k \<in> set (inputs (get_recipes f2 ! i2))" by blast
      from f2(4) unprod have rej: "rejected r f2 i2" unfolding rejected_def by blast
      have e_ok': "entry_ok r ord (k2, rq2, Suc i2)"
        unfolding entry_ok_def prod.case
      proof (intro conjI allI impI)
        show "k2 < length ord" by fact
        fix f' assume f': "index_at r ord k2 = Inr f'"
        with f2(1) have eq': "f' = f2" by simp
        with f2(3) show "Suc i2 \<le> length (get_recipes f')" by simp
        fix j
        assume "\<not> is_finished f'" "j < Suc i2" "j < length (get_recipes f')"
        show "rejected r f' j"
        proof (cases "j = i2")
          case True
          with rej eq' show ?thesis by simp
        next
          case False
          with \<open>j < Suc i2\<close> have "j < i2" by simp
          with e_ok f2 eq' \<open>j < length (get_recipes f')\<close> show ?thesis
            by (simp add: entry_ok_def)
        qed
      qed
      from release_entry_total [OF ctx, of "(k2, rq2, i2)" q1] k2_lt obtain q2 where
        rel: "release_entry r ord (k2, rq2, i2) q1 = Inr q2" by auto
      from eq pr Cons e1 rel have bt_eq:
        "backtrack r ord path q = backtrack r ord ((k2, rq2, Suc i2) # rest1) q2" by simp
      from s1 Cons e1 have "settled r ord target ((k2, rq2, i2) # rest1) q1" by simp
      from advance_unexpanded [OF this rel e_ok']
      have u': "unexpanded r ord target ((k2, rq2, Suc i2) # rest1) q2" .
      have unf': "back_unfinished r ord ((k2, rq2, Suc i2) # rest1)"
        using f2 by (simp add: back_unfinished_def)
      have unp': "back_unproducible r ord ((k2, rq2, Suc i2) # rest1)"
        unfolding back_unproducible_def
      proof
        assume "exhausted r ord ((k2, rq2, Suc i2) # rest1) = Inr True"
        with f2(1) have "Suc i2 = length (get_recipes f2)" by (simp add: exhausted_def)
        with e_ok' f2 have "\<forall>j < length (get_recipes f2). rejected r f2 j"
          by (simp add: entry_ok_def)
        from unproducible_exhausted [OF f2(1,2) this]
        show "\<not> producible r (ord ! fst (hd ((k2, rq2, Suc i2) # rest1)))" by simp
      qed
      have pre_ne: "pre \<noteq> []"
      proof
        assume "pre = []"
        with pre path Cons e1 have "k2 = k" by simp
        with e k2 ok path show False by auto
      qed
      with pre Cons have "length ((k2, rq2, Suc i2) # rest1) < length path"
        by (cases pre) auto
      from less.hyps [OF this u' unf' unp'] obtain path' q' where
        res: "backtrack r ord ((k2, rq2, Suc i2) # rest1) q2 = Inr (path', q')"
        "unexpanded r ord target path' q'" "back_unfinished r ord path'"
        "exhausted r ord path' = Inr False"
        and shape: "path' = (k2, rq2, Suc i2) # rest1 \<or> path' = [] \<or>
               (\<exists>pre' k' rq' i' rest'. (k2, rq2, Suc i2) # rest1 = pre' @ (k', rq', i') # rest'
                   \<and> pre' \<noteq> [] \<and> path' = (k', rq', Suc i') # rest')"
        by blast
      have "path' = path \<or> path' = [] \<or>
               (\<exists>pre k rq i rest. path = pre @ (k, rq, i) # rest \<and> pre \<noteq> []
                   \<and> path' = (k, rq, Suc i) # rest)"
      proof -
        from shape consider (same) "path' = (k2, rq2, Suc i2) # rest1" | (empty) "path' = []"
          | (deeper) pre' k' rq' i' rest' where
              "(k2, rq2, Suc i2) # rest1 = pre' @ (k', rq', i') # rest'" "pre' \<noteq> []"
              "path' = (k', rq', Suc i') # rest'"
          by blast
        then show ?thesis
        proof cases
          case same
          with pre Cons e1 pre_ne show ?thesis by blast
        next
          case empty
          then show ?thesis by simp
        next
          case deeper
          from deeper(1,2) obtain pre'' where "pre' = (k2, rq2, Suc i2) # pre''"
            "rest1 = pre'' @ (k', rq', i') # rest'"
            by (cases pre') auto
          with pre Cons e1 have "path = (pre @ (k2, rq2, i2) # pre'') @ (k', rq', i') # rest'"
            by simp
          moreover have "pre @ (k2, rq2, i2) # pre'' \<noteq> []" by simp
          ultimately show ?thesis using deeper(3) by blast
        qed
      qed
      with res bt_eq show ?thesis by simp
    qed
  qed
qed

section \<open>The planner's loop ends\<close>

text \<open>
  The path read as a number: the entry of position \<open>k\<close> with recipe \<open>i\<close> is the digit
  \<open>i + 1\<close> at place \<open>k\<close>, in a base above every digit. Every step of the planner
  that leaves something in the queue makes the number greater.
\<close>

definition max_recipes :: "IndexRegistry \<Rightarrow> nat" where
  "max_recipes r = fold max (map (\<lambda>(k, f). length (get_recipes f)) (registry r)) 0"

definition weight :: "nat \<Rightarrow> plan_path \<Rightarrow> nat" where
  "weight B path = sum_list (map (\<lambda>(k, rq, i). Suc i * B ^ k) path)"

lemma fold_max_ge: "(x :: nat) \<in> set xs \<Longrightarrow> x \<le> fold max xs a"
proof (induction xs arbitrary: a)
  case Nil
  then show ?case by simp
next
  case (Cons y ys)
  have mono: "a \<le> fold max ys a" for a :: nat
    by (induction ys arbitrary: a) (auto intro: order_trans [OF max.cobounded2])
  show ?case
  proof (cases "x = y")
    case True
    then show ?thesis using mono [of "max y a"] by simp
  next
    case False
    with Cons show ?thesis by simp
  qed
qed

lemma max_recipes_ge:
  "(k, f) \<in> set (registry r) \<Longrightarrow> length (get_recipes f) \<le> max_recipes r"
  unfolding max_recipes_def by (rule fold_max_ge) force

lemma weight_Cons: "weight B ((k, rq, i) # path) = Suc i * B ^ k + weight B path"
  by (simp add: weight_def)

lemma weight_append: "weight B (xs @ ys) = weight B xs + weight B ys"
  by (simp add: weight_def)

lemma weight_bound:
  assumes "2 \<le> B"
  shows "sorted_wrt (<) (map fst path) \<Longrightarrow>
     \<forall>e \<in> set path. fst e < K \<and> snd (snd e) + 2 \<le> B \<Longrightarrow> path \<noteq> [] \<Longrightarrow>
     weight B path + B ^ fst (hd path) \<le> B ^ K"
proof (induction path)
  case Nil
  then show ?case by simp
next
  case (Cons e path)
  obtain k rq i where e: "e = (k, rq, i)" by (cases e)
  from Cons.prems e have k: "k < K" and i: "i + 2 \<le> B" by auto
  have digit: "Suc i * B ^ k + B ^ k \<le> B ^ Suc k"
  proof -
    have "Suc i * B ^ k + B ^ k = (i + 2) * B ^ k" by simp
    also from i have "\<dots> \<le> B * B ^ k" by (rule mult_le_mono1)
    finally show ?thesis by simp
  qed
  from assms have B1: "1 \<le> B" by simp
  show ?case
  proof (cases "path = []")
    case True
    from k have "B ^ Suc k \<le> B ^ K" using B1 by (intro power_increasing) auto
    with digit True e show ?thesis by (simp add: weight_def)
  next
    case False
    then obtain e' rest where path: "path = e' # rest" by (cases path) auto
    from Cons.prems path e have lt: "k < fst e'" by auto
    from Cons.prems have "sorted_wrt (<) (map fst path)"
      "\<forall>e \<in> set path. fst e < K \<and> snd (snd e) + 2 \<le> B" by auto
    from Cons.IH [OF this False] path
    have ih: "weight B path + B ^ fst e' \<le> B ^ K" by simp
    from lt have "B ^ Suc k \<le> B ^ fst e'" using B1 by (intro power_increasing) auto
    with digit have "Suc i * B ^ k + B ^ k \<le> B ^ fst e'" by simp
    with ih have "Suc i * B ^ k + B ^ k + weight B path \<le> B ^ K" by simp
    with e show ?thesis by (simp add: weight_Cons)
  qed
qed

lemma path_ok_sorted: "path_ok r ord path \<Longrightarrow> sorted_wrt (<) (map fst path)"
  by (induction path) auto

lemma path_ok_digits:
  assumes ctx: "planning_context r ord" and ok: "path_ok r ord path" and e: "e \<in> set path"
  shows "fst e < length ord \<and> snd (snd e) + 2 \<le> max_recipes r + 2"
proof -
  obtain k rq i where ek: "e = (k, rq, i)" by (cases e)
  from path_ok_entries [OF ok e] ek have eo: "entry_ok r ord (k, rq, i)" by simp
  then have k: "k < length ord" by (simp add: entry_ok_def)
  from context_index_at [OF ctx k] obtain f where f: "index_at r ord k = Inr f" by blast
  with eo have "i \<le> length (get_recipes f)" by (simp add: entry_ok_def)
  also from index_at_Inr [OF f] have "\<dots> \<le> max_recipes r" by (auto intro: max_recipes_ge)
  finally show ?thesis using k ek by simp
qed

lemma path_ok_weight:
  assumes ctx: "planning_context r ord" and ok: "path_ok r ord path"
  shows "weight (max_recipes r + 2) path < (max_recipes r + 2) ^ length ord"
proof (cases "path = []")
  case True
  then show ?thesis by (simp add: weight_def)
next
  case False
  have "weight (max_recipes r + 2) path + (max_recipes r + 2) ^ fst (hd path)
          \<le> (max_recipes r + 2) ^ length ord"
    by (rule weight_bound [OF _ path_ok_sorted [OF ok] _ False])
       (use path_ok_digits [OF ctx ok] in auto)
  moreover have "0 < (max_recipes r + 2) ^ fst (hd path)" by simp
  ultimately show ?thesis by linarith
qed

lemma advance_weight:
  assumes ctx: "planning_context r ord" and ok: "path_ok r ord (pre @ (k, rq, i) # rest)"
  shows "weight (max_recipes r + 2) (pre @ (k, rq, i) # rest)
           < weight (max_recipes r + 2) ((k, rq, Suc i) # rest)"
proof -
  let ?B = "max_recipes r + 2"
  have pre: "weight ?B pre < ?B ^ k"
  proof (cases "pre = []")
    case True
    then show ?thesis by (simp add: weight_def)
  next
    case False
    from path_ok_sorted [OF ok] have s: "sorted_wrt (<) (map fst pre)"
      and lt: "\<forall>e \<in> set pre. fst e < k"
      by (auto simp: sorted_wrt_append)
    have "weight ?B pre + ?B ^ fst (hd pre) \<le> ?B ^ k"
      by (rule weight_bound [OF _ s _ False])
         (use lt path_ok_digits [OF ctx ok] in auto)
    moreover have "0 < ?B ^ fst (hd pre)" by simp
    ultimately show ?thesis by linarith
  qed
  then show ?thesis by (simp add: weight_append weight_Cons)
qed

lemma requests_using:
  "index_at r ord k = Inr f \<Longrightarrow> \<not> is_finished f \<Longrightarrow> i < length (get_recipes f) \<Longrightarrow>
     request_inputs ord k (inputs (get_recipes f ! i)) q
       = request_positions (fst (k, rq, i)) (requests r ord (k, rq, i)) q"
  by (simp add: requests_def request_inputs_positions)

lemma plan_step_finished:
  "index_at r ord k = Inr f \<Longrightarrow> is_finished f \<Longrightarrow>
     plan_step r ord (path, (k, rq, c) # qr) = Inr ((k, rq, 0) # path, qr)"
  by (simp add: plan_step_def)

lemma plan_step_recipe:
  "index_at r ord k = Inr f \<Longrightarrow> \<not> is_finished f \<Longrightarrow> get_recipes f \<noteq> [] \<Longrightarrow>
     plan_step r ord (path, (k, rq, c) # qr)
       = Inr ((k, rq, 0) # path, request_inputs ord k (inputs (get_recipes f ! 0)) qr)"
  by (simp add: plan_step_def hd_conv_nth)

lemma plan_step_backtrack_empty:
  "index_at r ord k = Inr f \<Longrightarrow> \<not> is_finished f \<Longrightarrow> get_recipes f = [] \<Longrightarrow>
     backtrack r ord ((k, rq, 0) # path) qr = Inr ([], q1) \<Longrightarrow>
     plan_step r ord (path, (k, rq, c) # qr) = Inr ([], q1)"
  by (simp add: plan_step_def)

lemma plan_step_backtrack_advance:
  "index_at r ord k = Inr f \<Longrightarrow> \<not> is_finished f \<Longrightarrow> get_recipes f = [] \<Longrightarrow>
     backtrack r ord ((k, rq, 0) # path) qr = Inr ((k', rq', i') # path', q1) \<Longrightarrow>
     index_at r ord k' = Inr f' \<Longrightarrow> i' < length (get_recipes f') \<Longrightarrow>
     plan_step r ord (path, (k, rq, c) # qr)
       = Inr ((k', rq', i') # path', request_inputs ord k' (inputs (get_recipes f' ! i')) q1)"
  by (simp add: plan_step_def)

text \<open>Taking the front of the queue to the back of the path.\<close>

lemma queue_invD:
  "queue_inv r ord path q \<Longrightarrow> map_of q d = Some (rq, c) \<Longrightarrow>
     1 \<le> c \<and> (\<forall>e \<in> set path. d < fst e) \<and> requested_by r ord d rq path
       \<and> (\<exists>b. request_bound r ord d rq path = Some b \<and> c \<le> b)"
  unfolding queue_inv_def by blast

lemma queue_invI:
  "queue_ok q \<Longrightarrow>
     (\<And>d rq c. map_of q d = Some (rq, c) \<Longrightarrow>
        1 \<le> c \<and> (\<forall>e \<in> set path. d < fst e) \<and> requested_by r ord d rq path
       \<and> (\<exists>b. request_bound r ord d rq path = Some b \<and> c \<le> b))
     \<Longrightarrow> queue_inv r ord path q"
  unfolding queue_inv_def by blast

lemma dequeue_initial:
  assumes tgt: "target < length ord"
  shows "unexpanded r ord target [(target, length ord, 0)] []"
proof -
  from tgt have "entry_ok r ord (target, length ord, 0)" by (simp add: entry_ok_def)
  then have "path_ok r ord [(target, length ord, 0)]" by simp
  then show ?thesis by (simp add: unexpanded_def queue_ok_def del: path_ok.simps)
qed

lemma queue_inv_tail:
  assumes qi: "queue_inv r ord path ((k, rq, c) # qr)"
  shows "queue_inv r ord path qr"
proof -
  from qi have qok: "queue_ok ((k, rq, c) # qr)" by (simp add: queue_inv_def)
  show ?thesis
  proof (rule queue_invI [OF queue_head(1) [OF qok]])
    fix d rq' c' assume m: "map_of qr d = Some (rq', c')"
    have "d \<noteq> k"
    proof
      assume "d = k"
      with queue_head(3) [OF qok, of d] have "map_of qr d = None"
        by (simp only: simp_thms if_True)
      with m show False by simp
    qed
    with m have "map_of ((k, rq, c) # qr) d = Some (rq', c')" by simp
    from queue_invD [OF qi this]
    show "1 \<le> c' \<and> (\<forall>e \<in> set path. d < fst e) \<and> requested_by r ord d rq' path
        \<and> (\<exists>b. request_bound r ord d rq' path = Some b \<and> c' \<le> b)" .
  qed
qed

lemma dequeue_settled:
  assumes s: "settled r ord target path ((k, rq, c) # qr)"
  shows "unexpanded r ord target ((k, rq, 0) # path) qr"
proof -
  from s have ne: "path \<noteq> []" and ok: "path_ok r ord path"
    and last: "fst (last path) = target"
    and qi: "queue_inv r ord path ((k, rq, c) # qr)"
    by (simp_all add: settled_def)
  from qi have qok: "queue_ok ((k, rq, c) # qr)" by (simp add: queue_inv_def)
  have "map_of ((k, rq, c) # qr) k = Some (rq, c)" by simp
  from queue_invD [OF qi this]
  have lt: "\<forall>e \<in> set path. k < fst e" and rb: "requested_by r ord k rq path" by simp_all
  from ne obtain e where e: "e \<in> set path" by (cases path) auto
  with lt have "k < fst e" by simp
  with path_ok_bound [OF ok e] have k: "k < length ord" by simp
  then have "entry_ok r ord (k, rq, 0)" by (simp add: entry_ok_def)
  with ok lt rb ne have ok': "path_ok r ord ((k, rq, 0) # path)" by simp
  from ok' last ne queue_inv_tail [OF qi] qok queue_head(1,2) [OF qok] show ?thesis
    by (simp add: unexpanded_def del: path_ok.simps)
qed

lemma dequeue_unexpanded:
  assumes tgt: "target < length ord"
    and inv: "plan_inv r ord target (path, (k, rq, c) # qr)"
  shows "unexpanded r ord target ((k, rq, 0) # path) qr"
proof -
  from inv have "path = [] \<and> k = target \<and> rq = length ord \<and> c = 1 \<and> qr = []
      \<or> settled r ord target path ((k, rq, c) # qr)"
    by (simp add: plan_inv_def)
  then show ?thesis
    using dequeue_initial [OF tgt, of r] dequeue_settled [of r ord target path k rq c qr]
    by blast
qed

lemma settled_path_ok: "settled r ord target path q \<Longrightarrow> path_ok r ord path"
  by (auto simp: settled_def)

text \<open>
  One step of the planner from a state of the invariant: no lookup fails, the invariant
  holds again, and the queue is empty or the path is greater.
\<close>

lemma plan_step_total:
  assumes ctx: "planning_context r ord" and tgt: "target < length ord"
    and inv: "plan_inv r ord target (path, q)" and ne: "q \<noteq> []"
  shows "\<exists>path' q'. plan_step r ord (path, q) = Inr (path', q')
           \<and> settled r ord target path' q'
           \<and> (q' = [] \<or> weight (max_recipes r + 2) path < weight (max_recipes r + 2) path')"
proof -
  let ?B = "max_recipes r + 2"
  from ne obtain k rq c qr where q: "q = (k, rq, c) # qr" by (cases q) auto
  let ?entry = "(k, rq, 0 :: nat)"
  from dequeue_unexpanded [OF tgt inv [unfolded q]]
  have u: "unexpanded r ord target (?entry # path) qr" .
  from unexpanded_settled [OF u] have s: "settled r ord target (?entry # path) qr" .
  from settled_path_ok [OF s] have ok: "path_ok r ord (?entry # path)" .
  from path_ok_bound [OF ok, of ?entry] have k: "k < length ord" by simp
  from context_index_at [OF ctx k] obtain f where f: "index_at r ord k = Inr f" by blast
  have push: "weight ?B path < weight ?B (?entry # path)" by (simp add: weight_Cons)
  show ?thesis
  proof (cases "is_finished f")
    case True
    from plan_step_finished [OF f True] s push q show ?thesis by blast
  next
    case False
    show ?thesis
    proof (cases "get_recipes f = []")
      case recipes: False
      then have pos: "0 < length (get_recipes f)" by simp
      from expand_settled [OF ctx u] requests_using [OF f False pos, of qr rq]
      have "settled r ord target (?entry # path)
              (request_inputs ord k (inputs (get_recipes f ! 0)) qr)" by simp
      with plan_step_recipe [OF f False recipes] push q show ?thesis by blast
    next
      case True
      have unf: "back_unfinished r ord (?entry # path)"
        using f False by (simp add: back_unfinished_def)
      from True have "\<forall>j < length (get_recipes f). rejected r f j" by simp
      from unproducible_exhausted [OF f False this]
      have unp: "back_unproducible r ord (?entry # path)"
        by (simp add: back_unproducible_def)
      from backtrack_unexpanded [OF ctx u unf unp] obtain p1 q1 where
        bt: "backtrack r ord (?entry # path) qr = Inr (p1, q1)"
        and u1: "unexpanded r ord target p1 q1" and unf1: "back_unfinished r ord p1"
        and nex: "exhausted r ord p1 = Inr False"
        and shape: "p1 = ?entry # path \<or> p1 = [] \<or>
               (\<exists>pre k' rq' i' rest. ?entry # path = pre @ (k', rq', i') # rest \<and> pre \<noteq> []
                   \<and> p1 = (k', rq', Suc i') # rest)"
        by blast
      have ex: "exhausted r ord (?entry # path) = Inr True"
        using f True by (simp add: exhausted_def)
      show ?thesis
      proof (cases p1)
        case Nil
        with u1 have "q1 = []" by (simp add: unexpanded_def)
        with plan_step_backtrack_empty [OF f False True bt [unfolded Nil]] q
        show ?thesis by (auto simp: settled_def)
      next
        case (Cons e1 rest1)
        obtain k1 rq1 i1 where e1: "e1 = (k1, rq1, i1)" by (cases e1)
        from unf1 Cons e1 obtain f1 where f1: "index_at r ord k1 = Inr f1" "\<not> is_finished f1"
          by (auto simp: back_unfinished_def)
        from u1 Cons have ok1: "path_ok r ord p1" by (simp add: unexpanded_def)
        from path_ok_entries [OF ok1, of "(k1, rq1, i1)"] Cons e1 f1
        have "i1 \<le> length (get_recipes f1)" by (simp add: entry_ok_def)
        moreover from nex Cons e1 f1 have "i1 \<noteq> length (get_recipes f1)"
          by (simp add: exhausted_def)
        ultimately have i1: "i1 < length (get_recipes f1)" by simp
        note step = plan_step_backtrack_advance [OF f False True bt [unfolded Cons e1] f1(1) i1]
        from expand_settled [OF ctx u1 [unfolded Cons e1]] requests_using [OF f1 i1, of q1 rq1]
        have s1: "settled r ord target ((k1, rq1, i1) # rest1)
                (request_inputs ord k1 (inputs (get_recipes f1 ! i1)) q1)" by simp
        from shape ex nex Cons obtain pre k' rq' i' rest where
          sh: "?entry # path = pre @ (k', rq', i') # rest" "p1 = (k', rq', Suc i') # rest"
          by auto
        from advance_weight [OF ctx ok [unfolded sh(1)]] sh push
        have "weight ?B path < weight ?B p1" by simp
        with step s1 q Cons e1 show ?thesis by auto
      qed
    qed
  qed
qed

text \<open>
  The loop of the planner ends, from the queue that holds the target alone: what is left
  to climb, below the bound on the number that the path stands for, gets smaller in every
  step.
\<close>

definition plan_measure :: "nat \<Rightarrow> nat \<Rightarrow> error + plan_state \<Rightarrow> nat" where
  "plan_measure B N s =
     (case s of Inl e \<Rightarrow> 0 | Inr (path, q) \<Rightarrow> if q = [] then 0 else B ^ N - weight B path)"

definition plan_state_inv ::
  "IndexRegistry \<Rightarrow> string list \<Rightarrow> nat \<Rightarrow> error + plan_state \<Rightarrow> bool" where
  "plan_state_inv r ord target s = (\<exists>path q. s = Inr (path, q) \<and> plan_inv r ord target (path, q))"

lemma plan_inv_weight:
  assumes ctx: "planning_context r ord" and inv: "plan_inv r ord target (path, q)"
  shows "weight (max_recipes r + 2) path < (max_recipes r + 2) ^ length ord"
proof (cases "path = []")
  case True
  then show ?thesis by (simp add: weight_def)
next
  case False
  with inv have "settled r ord target path q" by (simp add: plan_inv_def)
  from path_ok_weight [OF ctx settled_path_ok [OF this]] show ?thesis .
qed

lemma plan_next_inv:
  assumes ctx: "planning_context r ord" and tgt: "target < length ord"
    and inv: "plan_state_inv r ord target s" and run: "plan_running s"
  shows "plan_state_inv r ord target (plan_next r ord s)
         \<and> plan_measure (max_recipes r + 2) (length ord) (plan_next r ord s)
             < plan_measure (max_recipes r + 2) (length ord) s"
proof -
  let ?B = "max_recipes r + 2"
  from inv obtain path q where s: "s = Inr (path, q)" and pi: "plan_inv r ord target (path, q)"
    unfolding plan_state_inv_def by blast
  from run s have ne: "q \<noteq> []" by (simp add: plan_running_def)
  from plan_step_total [OF ctx tgt pi ne] obtain path' q' where
    st: "plan_step r ord (path, q) = Inr (path', q')"
    and se: "settled r ord target path' q'"
    and w: "q' = [] \<or> weight ?B path < weight ?B path'"
    by blast
  from st s have nx: "plan_next r ord s = Inr (path', q')" by (simp add: plan_next_def)
  from se have pi': "plan_inv r ord target (path', q')" by (simp add: plan_inv_def)
  then have "plan_state_inv r ord target (plan_next r ord s)"
    unfolding plan_state_inv_def nx by blast
  moreover have "plan_measure ?B (length ord) (plan_next r ord s)
                   < plan_measure ?B (length ord) s"
  proof -
    from plan_inv_weight [OF ctx pi] have b: "weight ?B path < ?B ^ length ord" .
    from plan_inv_weight [OF ctx pi'] have b': "weight ?B path' < ?B ^ length ord" .
    from b ne have m: "plan_measure ?B (length ord) s = ?B ^ length ord - weight ?B path"
      "0 < plan_measure ?B (length ord) s"
      by (simp_all add: plan_measure_def s)
    show ?thesis
    proof (cases "q' = []")
      case True
      then have "plan_measure ?B (length ord) (plan_next r ord s) = 0"
        by (simp add: plan_measure_def nx)
      with m(2) show ?thesis by simp
    next
      case False
      with w have "weight ?B path < weight ?B path'" by simp
      moreover from False have "plan_measure ?B (length ord) (plan_next r ord s)
          = ?B ^ length ord - weight ?B path'"
        by (simp add: plan_measure_def nx)
      ultimately show ?thesis using b b' m(1) by linarith
    qed
  qed
  ultimately show ?thesis ..
qed

lemma plan_loop_total:
  assumes ctx: "planning_context r ord" and tgt: "target < length ord"
  shows "\<exists>path. plan_loop r ord (Inr ([], [(target, length ord, 1)])) = Some (Inr (path, []))
           \<and> (path = [] \<or> path_ok r ord path \<and> fst (last path) = target)"
proof -
  let ?s = "Inr ([], [(target, length ord, 1)]) :: error + plan_state"
  have init: "plan_state_inv r ord target ?s"
    unfolding plan_state_inv_def by (simp add: plan_inv_def)
  have "\<exists>t. while_option plan_running (plan_next r ord) ?s = Some t"
    by (rule measure_while_option_Some
          [where P = "plan_state_inv r ord target"
             and f = "plan_measure (max_recipes r + 2) (length ord)"])
       (use plan_next_inv [OF ctx tgt] init in blast)+
  then obtain t where t: "while_option plan_running (plan_next r ord) ?s = Some t" ..
  have "plan_state_inv r ord target t"
    by (rule while_option_rule [where P = "plan_state_inv r ord target", OF _ t init])
       (use plan_next_inv [OF ctx tgt] in blast)
  then obtain path q where tq: "t = Inr (path, q)" and pi: "plan_inv r ord target (path, q)"
    unfolding plan_state_inv_def by blast
  from while_option_stop [OF t] tq have q: "q = []" by (simp add: plan_running_def)
  with pi have "settled r ord target path []" by (simp add: plan_inv_def)
  then have "path = [] \<or> path_ok r ord path \<and> fst (last path) = target"
    by (auto simp: settled_def)
  with t tq q show ?thesis unfolding plan_loop_def by blast
qed

text \<open>
  Planning one product, in a registry that is not empty: the path from the position of
  the product, or the exception with the name of the product.
\<close>

lemma dep_order_bound:
  assumes d: "distinct ord" and ne: "ord \<noteq> []"
  shows "dep_order_of_identifier ord x < length ord"
proof (cases "x \<in> set ord")
  case True
  then obtain i where i: "i < length ord" "ord ! i = x" by (auto simp: in_set_conv_nth)
  with at_default_index_map_nth [OF d i(1)] show ?thesis
    by (simp add: dep_order_of_identifier_def)
next
  case False
  with ne show ?thesis
    by (simp add: dep_order_of_identifier_def at_default_def index_map_None)
qed

lemma plan_product_total:
  assumes ctx: "planning_context r ord" and ne: "ord \<noteq> []"
  shows "\<exists>path. plan_loop r ord (Inr ([], [(dep_order_of_identifier ord product, (length ord, 1))]))
              = Some (Inr (path, []))
           \<and> (path = [] \<or> path_ok r ord path
                 \<and> fst (last path) = dep_order_of_identifier ord product)
           \<and> plan_product r ord product
               = (if path = [] then Some (Inl (InsufficientInput product (completed_indexes r)))
                  else Some (Inr path))"
proof -
  from ctx have "distinct ord" by (simp add: planning_context_def)
  from plan_loop_total [OF ctx dep_order_bound [OF this ne, of product]]
  obtain path where
    l: "plan_loop r ord (Inr ([], [(dep_order_of_identifier ord product, length ord, 1)]))
          = Some (Inr (path, []))"
    and p: "path = [] \<or> path_ok r ord path \<and> fst (last path) = dep_order_of_identifier ord product"
    by blast
  from l have "plan_product r ord product
       = (if path = [] then Some (Inl (InsufficientInput product (completed_indexes r)))
          else Some (Inr path))"
    by (simp add: plan_product_def)
  with l p show ?thesis by blast
qed

section \<open>The outcome of planning\<close>

text \<open>
  An element of the plan names an index of the dependency order, with a recipe that was
  reached by rejecting the recipes before it.
\<close>

definition element_ok :: "IndexRegistry \<Rightarrow> string list \<Rightarrow> string \<times> nat \<Rightarrow> bool" where
  "element_ok r ord e = (\<exists>k rq. fst e = ord ! k \<and> entry_ok r ord (k, rq, snd e))"

lemma set_emplace: "set (emplace x xs) = insert x (set xs)"
  by (auto simp: emplace_def)

lemma set_fold_emplace:
  "set (fold (\<lambda>(k, rq, i). emplace (ord ! k, i)) xs acc)
     = set acc \<union> (\<lambda>(k, rq, i). (ord ! k, i)) ` set xs"
  by (induction xs arbitrary: acc) (auto simp: set_emplace)

lemma set_record_path:
  "set (record_path ord path acc) = set acc \<union> (\<lambda>(k, rq, i). (ord ! k, i)) ` set path"
  by (simp add: record_path_def set_fold_emplace)

lemma record_path_ok:
  assumes ok: "path_ok r ord path" and acc: "\<forall>e \<in> set acc. element_ok r ord e"
  shows "\<forall>e \<in> set (record_path ord path acc). element_ok r ord e"
proof
  fix e assume "e \<in> set (record_path ord path acc)"
  then have "e \<in> set acc \<or> e \<in> (\<lambda>(k, rq, i). (ord ! k, i)) ` set path"
    by (simp add: set_record_path)
  then show "element_ok r ord e"
  proof
    assume "e \<in> set acc"
    with acc show ?thesis by blast
  next
    assume "e \<in> (\<lambda>(k, rq, i). (ord ! k, i)) ` set path"
    then obtain k rq i where m: "(k, rq, i) \<in> set path" and e: "e = (ord ! k, i)" by auto
    from path_ok_entries [OF ok m] e show ?thesis unfolding element_ok_def by auto
  qed
qed

lemma record_path_last:
  assumes "path \<noteq> []"
  shows "\<exists>i. (ord ! fst (last path), i) \<in> set (record_path ord path acc)"
proof -
  obtain k rq i where l: "last path = (k, rq, i)" by (cases "last path")
  from assms have "last path \<in> set path" by simp
  with l have "(ord ! k, i) \<in> (\<lambda>(k, rq, i). (ord ! k, i)) ` set path" by force
  then have "(ord ! k, i) \<in> set (record_path ord path acc)" by (simp add: set_record_path)
  with l show ?thesis by auto
qed

lemma plan_product_position_eq:
  assumes ctx: "planning_context r ord" and ne: "ord \<noteq> []"
    and g: "dep_order_of_identifier ord t' = dep_order_of_identifier ord t"
  shows "plan_product r ord t = Some (Inl (InsufficientInput t (completed_indexes r)))
           \<and> plan_product r ord t' = Some (Inl (InsufficientInput t' (completed_indexes r)))
         \<or> (\<exists>path. plan_product r ord t = Some (Inr path) \<and> plan_product r ord t' = Some (Inr path)
               \<and> path \<noteq> [] \<and> path_ok r ord path
               \<and> fst (last path) = dep_order_of_identifier ord t)"
proof -
  from plan_product_total [OF ctx ne, of t] obtain path where
    l: "plan_loop r ord (Inr ([], [(dep_order_of_identifier ord t, (length ord, 1))]))
          = Some (Inr (path, []))"
    and p: "path = [] \<or> path_ok r ord path \<and> fst (last path) = dep_order_of_identifier ord t"
    and t: "plan_product r ord t
              = (if path = [] then Some (Inl (InsufficientInput t (completed_indexes r)))
                 else Some (Inr path))"
    by blast
  from l g have "plan_product r ord t'
              = (if path = [] then Some (Inl (InsufficientInput t' (completed_indexes r)))
                 else Some (Inr path))"
    by (simp add: plan_product_def)
  with t p show ?thesis by (cases "path = []") simp_all
qed

lemma plan_products_cases:
  assumes ctx: "planning_context r ord" and ne: "ord \<noteq> []"
    and g: "\<And>t. dep_order_of_identifier ord (g t) = dep_order_of_identifier ord t"
  shows "\<forall>e \<in> set acc. element_ok r ord e \<Longrightarrow>
     (\<exists>els. plan_products r ord ts acc = Some (Inr els)
          \<and> plan_products r ord (map g ts) acc = Some (Inr els)
          \<and> (\<forall>e \<in> set els. element_ok r ord e) \<and> set acc \<subseteq> set els
          \<and> (\<forall>t \<in> set ts. \<exists>i. (ord ! dep_order_of_identifier ord t, i) \<in> set els))
     \<or> (\<exists>n < length ts.
          plan_products r ord ts acc
            = Some (Inl (InsufficientInput (ts ! n) (completed_indexes r)))
          \<and> plan_products r ord (map g ts) acc
            = Some (Inl (InsufficientInput (g (ts ! n)) (completed_indexes r))))"
proof (induction ts arbitrary: acc)
  case Nil
  then show ?case by simp
next
  case (Cons t ts)
  from plan_product_position_eq [OF ctx ne g [of t]]
  show ?case
  proof
    assume "plan_product r ord t = Some (Inl (InsufficientInput t (completed_indexes r)))
           \<and> plan_product r ord (g t) = Some (Inl (InsufficientInput (g t) (completed_indexes r)))"
    then have "plan_products r ord (t # ts) acc
            = Some (Inl (InsufficientInput ((t # ts) ! 0) (completed_indexes r)))
          \<and> plan_products r ord (map g (t # ts)) acc
            = Some (Inl (InsufficientInput (g ((t # ts) ! 0)) (completed_indexes r)))"
      by simp
    moreover have "0 < length (t # ts)" by simp
    ultimately show ?thesis by blast
  next
    assume "\<exists>path. plan_product r ord t = Some (Inr path)
               \<and> plan_product r ord (g t) = Some (Inr path)
               \<and> path \<noteq> [] \<and> path_ok r ord path
               \<and> fst (last path) = dep_order_of_identifier ord t"
    then obtain path where pt: "plan_product r ord t = Some (Inr path)"
      and pg: "plan_product r ord (g t) = Some (Inr path)"
      and pne: "path \<noteq> []" and ok: "path_ok r ord path"
      and last: "fst (last path) = dep_order_of_identifier ord t"
      by blast
    let ?acc = "record_path ord path acc"
    from pt have st: "plan_products r ord (t # ts) acc = plan_products r ord ts ?acc" by simp
    from pg have sg: "plan_products r ord (map g (t # ts)) acc
                        = plan_products r ord (map g ts) ?acc" by simp
    from record_path_last [OF pne, of ord acc] last obtain i0 where
      i0: "(ord ! dep_order_of_identifier ord t, i0) \<in> set ?acc" by auto
    have sub: "set acc \<subseteq> set ?acc" by (simp add: set_record_path)
    from Cons.IH [OF record_path_ok [OF ok Cons.prems]]
    show ?thesis
    proof
      assume "\<exists>els. plan_products r ord ts ?acc = Some (Inr els)
          \<and> plan_products r ord (map g ts) ?acc = Some (Inr els)
          \<and> (\<forall>e \<in> set els. element_ok r ord e) \<and> set ?acc \<subseteq> set els
          \<and> (\<forall>t \<in> set ts. \<exists>i. (ord ! dep_order_of_identifier ord t, i) \<in> set els)"
      then obtain els where e: "plan_products r ord ts ?acc = Some (Inr els)"
          "plan_products r ord (map g ts) ?acc = Some (Inr els)"
          "\<forall>e \<in> set els. element_ok r ord e" "set ?acc \<subseteq> set els"
          "\<forall>t \<in> set ts. \<exists>i. (ord ! dep_order_of_identifier ord t, i) \<in> set els"
        by blast
      from e(4) i0 have "\<exists>i. (ord ! dep_order_of_identifier ord t, i) \<in> set els" by blast
      with e(5) have "\<forall>t' \<in> set (t # ts). \<exists>i. (ord ! dep_order_of_identifier ord t', i) \<in> set els"
        by simp
      moreover from sub e(4) have "set acc \<subseteq> set els" by blast
      ultimately show ?thesis using e(1,2,3) unfolding st sg by blast
    next
      assume "\<exists>n < length ts.
          plan_products r ord ts ?acc
            = Some (Inl (InsufficientInput (ts ! n) (completed_indexes r)))
          \<and> plan_products r ord (map g ts) ?acc
            = Some (Inl (InsufficientInput (g (ts ! n)) (completed_indexes r)))"
      then obtain n where n: "n < length ts"
          "plan_products r ord ts ?acc
            = Some (Inl (InsufficientInput (ts ! n) (completed_indexes r)))"
          "plan_products r ord (map g ts) ?acc
            = Some (Inl (InsufficientInput (g (ts ! n)) (completed_indexes r)))"
        by blast
      then have "Suc n < length (t # ts)"
        "plan_products r ord (t # ts) acc
            = Some (Inl (InsufficientInput ((t # ts) ! Suc n) (completed_indexes r)))"
        "plan_products r ord (map g (t # ts)) acc
            = Some (Inl (InsufficientInput (g ((t # ts) ! Suc n)) (completed_indexes r)))"
        unfolding st sg by simp_all
      then show ?thesis by blast
    qed
  qed
qed

lemma remove_finished_total:
  "\<forall>e \<in> set xs. \<exists>f. get_index r (fst e) = Inr f \<Longrightarrow>
     remove_finished r xs
       = Inr (filter (\<lambda>e. \<exists>f. get_index r (fst e) = Inr f \<and> \<not> is_finished f) xs)"
proof (induction xs)
  case Nil
  then show ?case by simp
next
  case (Cons x xs)
  from Cons.prems obtain f where f: "get_index r (fst x) = Inr f" by auto
  from Cons.prems have "\<forall>e \<in> set xs. \<exists>f. get_index r (fst e) = Inr f" by simp
  from Cons.IH [OF this] f show ?case by simp
qed

lemma element_ok_registered:
  assumes ctx: "planning_context r ord" and e: "element_ok r ord e"
  shows "\<exists>f. get_index r (fst e) = Inr f"
proof -
  from e obtain k rq where k: "fst e = ord ! k" "entry_ok r ord (k, rq, snd e)"
    unfolding element_ok_def by blast
  from k(2) have lt: "k < length ord" by (simp add: entry_ok_def)
  from context_index_at [OF ctx lt] obtain f where "index_at r ord k = Inr f" by blast
  with lt k(1) show ?thesis by (simp add: index_at_def)
qed

text \<open>
  \<^verbatim>\<open>make_plan\<close> in a registry that is not empty and has a dependency order: it returns the
  selected elements without the finished ones, or throws \<^verbatim>\<open>InsufficientInputException\<close>
  for one of the products. Products at the same position of the dependency order are
  planned alike.
\<close>

lemma make_plan_cases:
  assumes wf: "wf_registry r" and ne: "registry r \<noteq> []"
    and ord: "dependency_order r = Some (Inr ord)"
    and g: "\<And>t. dep_order_of_identifier ord (g t) = dep_order_of_identifier ord t"
  shows
    "(\<exists>els. make_plan r ts
              = Some (Inr (filter (\<lambda>e. \<exists>f. get_index r (fst e) = Inr f \<and> \<not> is_finished f)
                   (sort_key (\<lambda>a. dep_order_of_identifier ord (fst a)) els)))
          \<and> make_plan r (map g ts)
              = Some (Inr (filter (\<lambda>e. \<exists>f. get_index r (fst e) = Inr f \<and> \<not> is_finished f)
                   (sort_key (\<lambda>a. dep_order_of_identifier ord (fst a)) els)))
          \<and> (\<forall>e \<in> set els. element_ok r ord e)
          \<and> (\<forall>t \<in> set ts. \<exists>i. (ord ! dep_order_of_identifier ord t, i) \<in> set els))
     \<or> (\<exists>n < length ts.
          make_plan r ts = Some (Inl (InsufficientInput (ts ! n) (completed_indexes r)))
          \<and> make_plan r (map g ts)
              = Some (Inl (InsufficientInput (g (ts ! n)) (completed_indexes r))))"
proof -
  from planning_context_dependency_order [OF wf ord] have ctx: "planning_context r ord" .
  from dependency_order_sound [OF wf ord] have "length ord = length (graph_label r)" by simp
  with ne have one: "ord \<noteq> []" by (auto simp: graph_label_def)
  have "\<forall>e \<in> set ([] :: (string \<times> nat) list). element_ok r ord e" by simp
  from plan_products_cases [OF ctx one g this, of ts]
  show ?thesis
  proof
    assume "\<exists>els. plan_products r ord ts [] = Some (Inr els)
          \<and> plan_products r ord (map g ts) [] = Some (Inr els)
          \<and> (\<forall>e \<in> set els. element_ok r ord e) \<and> set [] \<subseteq> set els
          \<and> (\<forall>t \<in> set ts. \<exists>i. (ord ! dep_order_of_identifier ord t, i) \<in> set els)"
    then obtain els where e: "plan_products r ord ts [] = Some (Inr els)"
      "plan_products r ord (map g ts) [] = Some (Inr els)"
      "\<forall>e \<in> set els. element_ok r ord e"
      "\<forall>t \<in> set ts. \<exists>i. (ord ! dep_order_of_identifier ord t, i) \<in> set els"
      by blast
    let ?sorted = "sort_key (\<lambda>a. dep_order_of_identifier ord (fst a)) els"
    from e(3) element_ok_registered [OF ctx]
    have "\<forall>e \<in> set ?sorted. \<exists>f. get_index r (fst e) = Inr f" by simp
    from remove_finished_total [OF this] e(1,2)
    have "make_plan r ts
              = Some (Inr (filter (\<lambda>e. \<exists>f. get_index r (fst e) = Inr f \<and> \<not> is_finished f) ?sorted))"
      "make_plan r (map g ts)
              = Some (Inr (filter (\<lambda>e. \<exists>f. get_index r (fst e) = Inr f \<and> \<not> is_finished f) ?sorted))"
      by (simp_all add: make_plan_def ord)
    with e(3,4) show ?thesis by blast
  next
    assume "\<exists>n < length ts.
          plan_products r ord ts []
            = Some (Inl (InsufficientInput (ts ! n) (completed_indexes r)))
          \<and> plan_products r ord (map g ts) []
            = Some (Inl (InsufficientInput (g (ts ! n)) (completed_indexes r)))"
    then obtain n where "n < length ts"
      "plan_products r ord ts []
            = Some (Inl (InsufficientInput (ts ! n) (completed_indexes r)))"
      "plan_products r ord (map g ts) []
            = Some (Inl (InsufficientInput (g (ts ! n)) (completed_indexes r)))"
      by blast
    then have "n < length ts"
      "make_plan r ts = Some (Inl (InsufficientInput (ts ! n) (completed_indexes r)))"
      "make_plan r (map g ts) = Some (Inl (InsufficientInput (g (ts ! n)) (completed_indexes r)))"
      by (simp_all add: make_plan_def ord)
    then show ?thesis by blast
  qed
qed

section \<open>Targets that were never registered\<close>

text \<open>
  \<^verbatim>\<open>dep_order_of_identifier[product]\<close> inserts the value 0 for a product that is not a key
  of the map: the planner starts from position 0 of the dependency order.
\<close>

lemma dep_order_unregistered:
  assumes wf: "wf_registry r" and ne: "registry r \<noteq> []"
    and ord: "dependency_order r = Some (Inr ord)" and un: "\<not> registry_count r t"
  shows "dep_order_of_identifier ord t = dep_order_of_identifier ord (ord ! 0)"
proof -
  from dependency_order_sound [OF wf ord]
  have d: "distinct ord" and s: "set ord = set (graph_label r)"
    and l: "length ord = length (graph_label r)" by auto
  from un have "t \<notin> set (graph_label r)"
    by (auto simp: registry_count_def graph_label_def map_of_eq_None_iff)
  with s have "dep_order_of_identifier ord t = 0"
    by (simp add: dep_order_of_identifier_def at_default_def index_map_None)
  moreover from ne l have "0 < length ord" by (simp add: graph_label_def)
  with d have "dep_order_of_identifier ord (ord ! 0) = 0"
    unfolding dep_order_of_identifier_def by (rule at_default_index_map_nth)
  ultimately show ?thesis by simp
qed

text \<open>
  C9, as amended: in a registry with at least one index whose dependency order exists,
  \<^verbatim>\<open>make_plan\<close> returns, and no lookup fails in it (neither \<^verbatim>\<open>registry.at\<close> in
  \<^verbatim>\<open>get_index\<close> nor a read of \<^verbatim>\<open>identifier_order\<close>). A target that was never registered
  is looked up at position 0 of the dependency order, and planning goes on as if the index
  at that position had been requested: either both requests get the same plan (possibly
  empty), or both end in \<^verbatim>\<open>InsufficientInputException\<close> for the product at the same place
  of \<^verbatim>\<open>end_products\<close>, and each exception carries the name that was requested.
\<close>

theorem unregistered_target_planned_as_first:
  assumes wf: "wf_registry r" and ne: "registry r \<noteq> []"
    and ord: "dependency_order r = Some (Inr identifier_order)"
  shows "(\<exists>plan. make_plan r end_products = Some (Inr plan)
            \<and> make_plan r (map (\<lambda>t. if registry_count r t then t else identifier_order ! 0)
                  end_products) = Some (Inr plan))
       \<or> (\<exists>n < length end_products.
            make_plan r end_products
              = Some (Inl (InsufficientInput (end_products ! n) (completed_indexes r)))
            \<and> make_plan r (map (\<lambda>t. if registry_count r t then t else identifier_order ! 0)
                  end_products)
              = Some (Inl (InsufficientInput
                   (if registry_count r (end_products ! n) then end_products ! n
                    else identifier_order ! 0)
                   (completed_indexes r))))"
proof -
  let ?g = "\<lambda>t. if registry_count r t then t else identifier_order ! 0"
  have "dep_order_of_identifier identifier_order (?g t) = dep_order_of_identifier identifier_order t"
    for t
    using dep_order_unregistered [OF wf ne ord, of t] by simp
  from make_plan_cases [OF wf ne ord, of ?g, OF this, of end_products]
  show ?thesis by blast
qed

lemma empty_registry_plan: "make_plan empty_registry [''X''] = Some (Inl OutOfBounds)"
  by code_simp

text \<open>
  C9 as stated fails on the empty registry: there is no index at position 0, and
  \<^verbatim>\<open>identifier_order[0]\<close> is read out of the bounds of the empty vector.
\<close>

theorem unregistered_target_empty_registry_counterexample:
  "\<not> registry_count empty_registry ''X''
   \<and> dependency_order empty_registry = Some (Inr [])
   \<and> make_plan empty_registry [''X''] = Some (Inl OutOfBounds)"
proof -
  have "\<not> registry_count empty_registry ''X''"
    by (simp add: registry_count_def empty_registry_def)
  moreover have "dependency_order empty_registry = Some (Inr [])"
    by code_simp
  ultimately show ?thesis using empty_registry_plan by simp
qed

lemma registry_A_wf: "wf_registry registry_A"
  by (simp add: wf_registry_def registry_A_def registry_of_def index_file_def)

lemma registry_A_order: "dependency_order registry_A = Some (Inr [''A''])"
  by code_simp

lemma registry_A_plans:
  "make_plan registry_A [''X''] = Some (Inl (InsufficientInput ''X'' []))"
  "make_plan registry_A [''A''] = Some (Inl (InsufficientInput ''A'' []))"
  "make_plan registry_chain [''X''] = Some (Inr [])"
  "make_plan registry_chain [''A''] = Some (Inr [])"
  by code_simp+

lemma registry_A_facts:
  "registry registry_A \<noteq> []" "\<not> registry_count registry_A ''X''"
  "completed_indexes registry_A = []"
  by (simp_all add: registry_count_def completed_indexes_def is_finished_def
        registry_A_def registry_of_def index_file_def)

theorem unregistered_target_planned_as_first_witness:
  "wf_registry registry_A \<and> registry registry_A \<noteq> []
   \<and> dependency_order registry_A = Some (Inr [''A''])
   \<and> \<not> registry_count registry_A ''X''
   \<and> make_plan registry_A [''X''] = Some (Inl (InsufficientInput ''X'' []))
   \<and> make_plan registry_A [''A''] = Some (Inl (InsufficientInput ''A'' []))
   \<and> ((\<exists>plan. make_plan registry_A [''X''] = Some (Inr plan)
            \<and> make_plan registry_A
                 (map (\<lambda>t. if registry_count registry_A t then t else [''A''] ! 0) [''X''])
                = Some (Inr plan))
       \<or> (\<exists>n < length [''X''].
            make_plan registry_A [''X'']
              = Some (Inl (InsufficientInput ([''X''] ! n) (completed_indexes registry_A)))
            \<and> make_plan registry_A
                 (map (\<lambda>t. if registry_count registry_A t then t else [''A''] ! 0) [''X''])
              = Some (Inl (InsufficientInput
                   (if registry_count registry_A ([''X''] ! n) then [''X''] ! n
                    else [''A''] ! 0)
                   (completed_indexes registry_A)))))"
  using unregistered_target_planned_as_first
          [OF registry_A_wf registry_A_facts(1) registry_A_order, of "[''X'']"]
    registry_A_wf registry_A_facts(1,2) registry_A_order registry_A_plans(1,2)
  by blast

section \<open>The first usable recipe\<close>

text \<open>
  C2, as amended: every element \<open>(X, i)\<close> of a plan that \<^verbatim>\<open>make_plan\<close> returns names an
  index \<open>X\<close> that is not finished and a recipe \<open>i\<close> of it such that every recipe before
  \<open>i\<close> has an input that cannot be produced: the recipes of an index are tried in the
  order of their registration. For a target \<open>T\<close> that is not finished and whose recipe 0
  has only inputs that can be produced, the plan contains \<open>(T, 0)\<close> and no other recipe
  of \<open>T\<close>.
\<close>

theorem first_usable_recipe_planned:
  assumes wf: "wf_registry r" and plan: "make_plan r end_products = Some (Inr plan)"
  shows "(\<forall>(x, i) \<in> set plan. \<exists>f. get_index r x = Inr f \<and> \<not> is_finished f
            \<and> i \<le> length (get_recipes f) \<and> (\<forall>j < i. rejected r f j))
       \<and> (\<forall>T \<in> set end_products. \<forall>f.
            get_index r T = Inr f \<and> \<not> is_finished f \<and> get_recipes f \<noteq> []
            \<and> (\<forall>x \<in> set (inputs (get_recipes f ! 0)). producible r x)
            \<longrightarrow> (T, 0) \<in> set plan \<and> (\<forall>i. (T, i) \<in> set plan \<longrightarrow> i = 0))"
proof (cases "registry r = []")
  case True
  have "plan = []"
  proof (rule ccontr)
    assume "plan \<noteq> []"
    then obtain e where "e \<in> set plan" by (cases plan) auto
    from make_plan_unfinished [OF plan this] obtain f where "get_index r (fst e) = Inr f" by blast
    with True show False by (simp add: get_index_def)
  qed
  moreover from True have "\<And>T f. get_index r T \<noteq> Inr f" by (simp add: get_index_def)
  ultimately show ?thesis by simp
next
  case ne: False
  from plan obtain ord where ord: "dependency_order r = Some (Inr ord)"
    by (auto simp: make_plan_def split: option.splits sum.splits)
  from planning_context_dependency_order [OF wf ord] have ctx: "planning_context r ord" .
  then have d: "distinct ord" by (simp add: planning_context_def)
  let ?keep = "\<lambda>e :: string \<times> nat. \<exists>f. get_index r (fst e) = Inr f \<and> \<not> is_finished f"
  from make_plan_cases [OF wf ne ord, of "\<lambda>t. t" end_products] plan
  obtain els where p: "plan = filter ?keep (sort_key (\<lambda>a. dep_order_of_identifier ord (fst a)) els)"
    and els: "\<forall>e \<in> set els. element_ok r ord e"
    and tg: "\<forall>t \<in> set end_products. \<exists>i. (ord ! dep_order_of_identifier ord t, i) \<in> set els"
    by auto
  from p have mem: "\<And>e. e \<in> set plan \<longleftrightarrow> e \<in> set els \<and> ?keep e" by simp
  have sel: "i \<le> length (get_recipes f) \<and> (\<forall>j < i. rejected r f j)"
    if "(x, i) \<in> set els" "get_index r x = Inr f" "\<not> is_finished f" for x i f
  proof -
    from els that(1) have "element_ok r ord (x, i)" by blast
    then obtain k rq where k: "x = ord ! k" "entry_ok r ord (k, rq, i)"
      unfolding element_ok_def by auto
    from k(2) have lt: "k < length ord" by (simp add: entry_ok_def)
    with k(1) that(2) have "index_at r ord k = Inr f" by (simp add: index_at_def)
    with k(2) that(3) show ?thesis by (simp add: entry_ok_def)
  qed
  have first: "\<forall>(x, i) \<in> set plan. \<exists>f. get_index r x = Inr f \<and> \<not> is_finished f
            \<and> i \<le> length (get_recipes f) \<and> (\<forall>j < i. rejected r f j)"
  proof (intro ballI, clarify)
    fix x i assume "(x, i) \<in> set plan"
    with mem [of "(x, i)"] obtain f where f: "(x, i) \<in> set els" "get_index r x = Inr f"
      "\<not> is_finished f" by auto
    from sel [OF this] f(2,3)
    show "\<exists>f. get_index r x = Inr f \<and> \<not> is_finished f
            \<and> i \<le> length (get_recipes f) \<and> (\<forall>j < i. rejected r f j)" by blast
  qed
  have second: "(T, 0) \<in> set plan \<and> (\<forall>i. (T, i) \<in> set plan \<longrightarrow> i = 0)"
    if T: "T \<in> set end_products" and f: "get_index r T = Inr f" "\<not> is_finished f"
      and rc: "get_recipes f \<noteq> []"
      and inp: "\<forall>x \<in> set (inputs (get_recipes f ! 0)). producible r x" for T f
  proof -
    from inp have nr: "\<not> rejected r f 0" by (simp add: rejected_def)
    have zero: "i = 0" if "(T, i) \<in> set els" for i
    proof (rule ccontr)
      assume "i \<noteq> 0"
      then have "0 < i" by simp
      with sel [OF that f] nr show False by blast
    qed
    from get_index_in_registry [OF f(1)] have "T \<in> set (graph_label r)"
      by (force simp: graph_label_def)
    with dependency_order_sound [OF wf ord] have "T \<in> set ord" by simp
    then obtain k where k: "k < length ord" "ord ! k = T" by (auto simp: in_set_conv_nth)
    with at_default_index_map_nth [OF d k(1)] have "ord ! dep_order_of_identifier ord T = T"
      by (simp add: dep_order_of_identifier_def)
    with tg T obtain i where "(T, i) \<in> set els" by force
    with zero [OF this] have "(T, 0) \<in> set els" by simp
    with mem [of "(T, 0)"] f have "(T, 0) \<in> set plan" by simp
    moreover have "\<forall>i. (T, i) \<in> set plan \<longrightarrow> i = 0" using mem zero by blast
    ultimately show ?thesis ..
  qed
  from first second show ?thesis by blast
qed

lemma registry_chain_built_plan_B: "make_plan registry_chain_built [''B''] = Some (Inr [])"
  by code_simp

text \<open>
  C2 as stated fails for a target that is finished: B was built from A by an earlier
  \<^verbatim>\<open>make_indexes\<close>; its recipe 0 needs only A, which is provided; the plan for B is empty.
\<close>

theorem finished_target_not_planned_counterexample:
  "make_indexes ''/tmp'' (\<lambda>x. x) registry_chain [''B''] = Some (Inr (registry_chain_built, []))
   \<and> get_index registry_chain_built ''B''
       = Inr (index_file ''B'' [''index.B''] False [recipe_from [''A'']])
   \<and> inputs (get_recipes (index_file ''B'' [''index.B''] False [recipe_from [''A'']]) ! 0) = [''A'']
   \<and> get_index registry_chain_built ''A'' = Inr (index_file ''A'' [''a.fasta''] True [])
   \<and> was_provided_directly (index_file ''A'' [''a.fasta''] True [])
   \<and> is_finished (index_file ''A'' [''a.fasta''] True [])
   \<and> make_plan registry_chain_built [''B''] = Some (Inr [])
   \<and> (''B'', 0) \<notin> set ([] :: (string \<times> nat) list)"
proof -
  have "get_index registry_chain_built ''B''
       = Inr (index_file ''B'' [''index.B''] False [recipe_from [''A'']])"
    "get_index registry_chain_built ''A'' = Inr (index_file ''A'' [''a.fasta''] True [])"
    by (simp_all add: registry_chain_built_def registry_of_def get_index_def index_file_def)
  moreover have
    "inputs (get_recipes (index_file ''B'' [''index.B''] False [recipe_from [''A'']]) ! 0) = [''A'']"
    "was_provided_directly (index_file ''A'' [''a.fasta''] True [])"
    "is_finished (index_file ''A'' [''a.fasta''] True [])"
    by (simp_all add: get_recipes_def index_file_def recipe_from_def was_provided_directly_def
          is_finished_def)
  ultimately show ?thesis
    using registry_chain_make_indexes_B registry_chain_built_plan_B by simp
qed

lemma registry_siblings_wf: "wf_registry registry_siblings"
  by (simp add: wf_registry_def registry_siblings_def registry_of_def index_file_def
        recipe_from_def)

lemma registry_siblings_files:
  "get_index registry_siblings ''T'' = Inr (index_file ''T'' [] False [recipe_from [''A'', ''B'']])"
  "get_index registry_siblings ''A''
     = Inr (index_file ''A'' [] False [recipe_from [''C''], recipe_from [''P'']])"
  "get_index registry_siblings ''B''
     = Inr (index_file ''B'' [] False [recipe_from [''C''], recipe_from [''P'']])"
  "get_index registry_siblings ''P'' = Inr (index_file ''P'' [''p.fasta''] True [])"
  by (simp_all add: registry_siblings_def registry_of_def get_index_def index_file_def)

lemma registry_siblings_producible:
  "producible registry_siblings ''A''" "producible registry_siblings ''B''"
proof -
  have P: "producible registry_siblings ''P''"
    by (rule producible_finished [OF registry_siblings_files(4)])
       (simp add: is_finished_def index_file_def)
  show "producible registry_siblings ''A''"
    by (rule producible_recipe [OF registry_siblings_files(2), of "recipe_from [''P'']"])
       (simp_all add: get_recipes_def index_file_def recipe_from_def P)
  show "producible registry_siblings ''B''"
    by (rule producible_recipe [OF registry_siblings_files(3), of "recipe_from [''P'']"])
       (simp_all add: get_recipes_def index_file_def recipe_from_def P)
qed

theorem first_usable_recipe_planned_witness:
  "wf_registry registry_siblings
   \<and> make_plan registry_siblings [''T''] = Some (Inr [(''A'', 1), (''T'', 0)])
   \<and> get_index registry_siblings ''T'' = Inr (index_file ''T'' [] False [recipe_from [''A'', ''B'']])
   \<and> \<not> is_finished (index_file ''T'' [] False [recipe_from [''A'', ''B'']])
   \<and> get_recipes (index_file ''T'' [] False [recipe_from [''A'', ''B'']]) \<noteq> []
   \<and> inputs (get_recipes (index_file ''T'' [] False [recipe_from [''A'', ''B'']]) ! 0)
       = [''A'', ''B'']
   \<and> producible registry_siblings ''A'' \<and> producible registry_siblings ''B''
   \<and> (''T'', 0) \<in> set [(''A'', 1 :: nat), (''T'', 0)]
   \<and> (\<exists>f. get_index registry_siblings ''A'' = Inr f \<and> \<not> is_finished f
          \<and> rejected registry_siblings f 0)"
proof -
  let ?T = "index_file ''T'' [] False [recipe_from [''A'', ''B'']]"
  have T: "\<not> is_finished ?T" "get_recipes ?T \<noteq> []"
    "inputs (get_recipes ?T ! 0) = [''A'', ''B'']"
    by (simp_all add: is_finished_def get_recipes_def index_file_def recipe_from_def)
  from first_usable_recipe_planned [OF registry_siblings_wf registry_siblings_plan]
  have "\<forall>(x, i) \<in> set [(''A'', 1 :: nat), (''T'', 0)].
          \<exists>f. get_index registry_siblings x = Inr f \<and> \<not> is_finished f
            \<and> i \<le> length (get_recipes f) \<and> (\<forall>j < i. rejected registry_siblings f j)"
    by blast
  then have "\<exists>f. get_index registry_siblings ''A'' = Inr f \<and> \<not> is_finished f
          \<and> rejected registry_siblings f 0"
    by auto
  with T registry_siblings_wf registry_siblings_plan registry_siblings_files(1)
    registry_siblings_producible
  show ?thesis by simp
qed

end
